theory Spec2Isabelle
  imports Complex_Main "HOL-Library.Word"
begin

section \<open>Bounded memory cache (cache.go)\<close>

text \<open>
  A Go \<^verbatim>\<open>byte\<close> is an unsigned 8-bit integer. \<^verbatim>\<open>int64(len(data))\<close> is the
  length of the slice; lengths and their sums are kept as unbounded integers, since a sum
  of lengths of slices held in memory stays far below \<open>2^63\<close>.
\<close>

type_synonym byte = "8 word"

text \<open>\<^verbatim>\<open>type CacheItem struct { Key string; Data []byte }\<close>\<close>

record CacheItem =
  Key :: string
  Data :: "byte list"

text \<open>
  A \<^verbatim>\<open>*list.Element\<close> of \<^verbatim>\<open>container/list\<close> is modelled by its address, a natural
  number. The doubly linked list \<^verbatim>\<open>ll\<close> is the sequence of the addresses of its elements,
  front first; \<^verbatim>\<open>Value\<close> gives the \<^verbatim>\<open>*CacheItem\<close> stored in the element at an
  address; the Go map \<^verbatim>\<open>cache\<close> sends a key to the address of an element.
  \<^verbatim>\<open>allocated\<close> counts the elements created so far by \<^verbatim>\<open>PushFront\<close>: the next
  element gets that address. The mutex is not modelled: every operation below is one
  critical section, run to completion.
\<close>

type_synonym element = nat

record MemoryCache =
  maxBytes :: int
  usedBytes :: int
  ll :: "element list"
  Value :: "element \<Rightarrow> CacheItem"
  cache :: "string \<rightharpoonup> element"
  allocated :: nat

definition NewMemoryCache :: "int \<Rightarrow> MemoryCache" where
  "NewMemoryCache mx =
     \<lparr>maxBytes = mx, usedBytes = 0, ll = [],
      Value = (\<lambda>_. \<lparr>Key = [], Data = []\<rparr>), cache = Map.empty, allocated = 0\<rparr>"

text \<open>
  \<^verbatim>\<open>l.MoveToFront(e)\<close>: nothing happens when \<open>e\<close> is not an element of the list or is
  already at the front; otherwise \<open>e\<close> is unlinked and linked again at the front.
\<close>

definition MoveToFront :: "element list \<Rightarrow> element \<Rightarrow> element list" where
  "MoveToFront l e = (if e \<in> set l then e # remove1 e l else l)"

text \<open>\<^verbatim>\<open>Get\<close>: the new cache state and the payload, \<open>None\<close> for \<^verbatim>\<open>(nil, false)\<close>.\<close>

definition Get :: "MemoryCache \<Rightarrow> string \<Rightarrow> MemoryCache \<times> byte list option" where
  "Get c key =
     (case cache c key of
        Some elem \<Rightarrow> (c\<lparr>ll := MoveToFront (ll c) elem\<rparr>, Some (Data (Value c elem)))
      | None \<Rightarrow> (c, None))"

text \<open>
  \<^verbatim>\<open>evict\<close>: while \<^verbatim>\<open>usedBytes > maxBytes\<close> and the list is not empty, the back element
  is removed from the list, its key is deleted from the map and its size is subtracted.
\<close>

function evict :: "MemoryCache \<Rightarrow> MemoryCache" where
  "evict c =
     (if usedBytes c > maxBytes c \<and> length (ll c) > 0 then
        (let elem = last (ll c);
             item = Value c elem
         in evict (c\<lparr>ll := butlast (ll c),
                      cache := (cache c)(Key item := None),
                      usedBytes := usedBytes c - int (length (Data item))\<rparr>))
      else c)"
  by pat_completeness auto
termination
  by (relation "measure (\<lambda>c. length (ll c))") auto

declare evict.simps [simp del]

text \<open>
  \<^verbatim>\<open>Set\<close>: an oversized payload returns at once; an existing key has its element moved to
  the front and its item's data replaced; a new key gets a new element at the front.
  Both paths end with \<^verbatim>\<open>evict\<close>.
\<close>

definition Set :: "MemoryCache \<Rightarrow> string \<Rightarrow> byte list \<Rightarrow> MemoryCache" where
  "Set c key data =
     (let dataSize = int (length data) in
      if dataSize > maxBytes c then c
      else
        (case cache c key of
           Some elem \<Rightarrow>
             (let oldItem = Value c elem in
              evict (c\<lparr>ll := MoveToFront (ll c) elem,
                       usedBytes := usedBytes c - int (length (Data oldItem)) + dataSize,
                       Value := (Value c)(elem := oldItem\<lparr>Data := data\<rparr>)\<rparr>))
         | None \<Rightarrow>
             (let elem = allocated c in
              evict (c\<lparr>ll := elem # ll c,
                       Value := (Value c)(elem := \<lparr>Key = key, Data = data\<rparr>),
                       cache := (cache c)(key \<mapsto> elem),
                       usedBytes := usedBytes c + dataSize,
                       allocated := Suc elem\<rparr>))))"

text \<open>A sequence of cache operations, each executed to completion.\<close>

datatype cache_op = OpGet string | OpSet string "byte list"

fun apply_op :: "MemoryCache \<Rightarrow> cache_op \<Rightarrow> MemoryCache" where
  "apply_op c (OpGet key) = fst (Get c key)"
| "apply_op c (OpSet key data) = Set c key data"

definition run_ops :: "MemoryCache \<Rightarrow> cache_op list \<Rightarrow> MemoryCache" where
  "run_ops c ops = foldl apply_op c ops"

text \<open>One turn of the loop of \<^verbatim>\<open>evict\<close>.\<close>

definition drop_back :: "MemoryCache \<Rightarrow> MemoryCache" where
  "drop_back c =
     c\<lparr>ll := butlast (ll c),
       cache := (cache c)(Key (Value c (last (ll c))) := None),
       usedBytes := usedBytes c - int (length (Data (Value c (last (ll c)))))\<rparr>"

text \<open>The state that \<^verbatim>\<open>Set\<close> hands to \<^verbatim>\<open>evict\<close>, on an existing and on a new key.\<close>

definition touch :: "MemoryCache \<Rightarrow> element \<Rightarrow> byte list \<Rightarrow> MemoryCache" where
  "touch c elem data =
     c\<lparr>ll := MoveToFront (ll c) elem,
       usedBytes := usedBytes c - int (length (Data (Value c elem))) + int (length data),
       Value := (Value c)(elem := (Value c elem)\<lparr>Data := data\<rparr>)\<rparr>"

definition push :: "MemoryCache \<Rightarrow> string \<Rightarrow> byte list \<Rightarrow> MemoryCache" where
  "push c key data =
     c\<lparr>ll := allocated c # ll c,
       Value := (Value c)(allocated c := \<lparr>Key = key, Data = data\<rparr>),
       cache := (cache c)(key \<mapsto> allocated c),
       usedBytes := usedBytes c + int (length data),
       allocated := Suc (allocated c)\<rparr>"

text \<open>
  The structural invariant of the cache: the list has no element twice, the map and the
  list describe the same entries, the byte count is the sum of the sizes, and every
  element of the list was allocated.
\<close>

definition cache_inv :: "MemoryCache \<Rightarrow> bool" where
  "cache_inv c \<longleftrightarrow>
     distinct (ll c)
     \<and> (\<forall>k e. cache c k = Some e \<longrightarrow> e \<in> set (ll c) \<and> Key (Value c e) = k)
     \<and> (\<forall>e \<in> set (ll c). cache c (Key (Value c e)) = Some e)
     \<and> usedBytes c = (\<Sum>e\<leftarrow>ll c. int (length (Data (Value c e))))
     \<and> (\<forall>e \<in> set (ll c). e < allocated c)"

text \<open>
  The history of a run, for the claims that speak of "the most recent Set":
  \<open>most_recent_Set ops key\<close> is the payload of the last \<^verbatim>\<open>Set\<close> of \<open>key\<close> in
  \<open>ops\<close>, whatever its size; \<open>accepted B ops key\<close> is the payload of the last
  \<^verbatim>\<open>Set\<close> of \<open>key\<close> whose payload did not exceed the budget \<open>B\<close>.
\<close>

fun note_set :: "(string \<rightharpoonup> byte list) \<Rightarrow> cache_op \<Rightarrow> (string \<rightharpoonup> byte list)" where
  "note_set m (OpGet key) = m"
| "note_set m (OpSet key data) = m(key \<mapsto> data)"

definition most_recent_Set :: "cache_op list \<Rightarrow> (string \<rightharpoonup> byte list)" where
  "most_recent_Set ops = foldl note_set Map.empty ops"

fun record_set :: "int \<Rightarrow> (string \<rightharpoonup> byte list) \<Rightarrow> cache_op \<Rightarrow> (string \<rightharpoonup> byte list)" where
  "record_set B m (OpGet key) = m"
| "record_set B m (OpSet key data) = (if int (length data) > B then m else m(key \<mapsto> data))"

definition accepted :: "int \<Rightarrow> cache_op list \<Rightarrow> (string \<rightharpoonup> byte list)" where
  "accepted B ops = foldl (record_set B) Map.empty ops"

definition agrees :: "MemoryCache \<Rightarrow> (string \<rightharpoonup> byte list) \<Rightarrow> bool" where
  "agrees c m \<longleftrightarrow> (\<forall>k e. cache c k = Some e \<longrightarrow> m k = Some (Data (Value c e)))"

definition cache_ok :: "MemoryCache \<Rightarrow> (string \<rightharpoonup> byte list) \<Rightarrow> bool" where
  "cache_ok c m \<longleftrightarrow>
     cache_inv c \<and> agrees c m \<and> (0 \<le> maxBytes c \<longrightarrow> usedBytes c \<le> maxBytes c)"

section \<open>Throughput-gated reader (reader.go)\<close>

text \<open>
  The errors of the program. \<^verbatim>\<open>ErrTooSlow\<close> is the reader's own sentinel; \<^verbatim>\<open>io.EOF\<close>
  ends a source; a context reports \<^verbatim>\<open>context.Canceled\<close> or
  \<^verbatim>\<open>context.DeadlineExceeded\<close>; package \<^verbatim>\<open>os\<close> reports that a file does not exist,
  that permission is denied, or another I/O error.
\<close>

datatype oserr = ErrNotExist | ErrPermission | ErrIO

datatype ctxerr = Canceled | DeadlineExceeded

datatype error = ErrTooSlow | EOF | CtxErr ctxerr | OsErr oserr

text \<open>
  The environment of one turn of the read loop of \<^verbatim>\<open>doRead\<close>, in the order in which
  the code asks: \<open>loopCtx\<close> is the answer of \<^verbatim>\<open>ctx.Err()\<close> at the top of the loop,
  \<open>readCtx\<close> its answer at the top of \<^verbatim>\<open>HedgingReader.Read\<close>, \<open>chunk\<close> the bytes
  \<^verbatim>\<open>chunk[:n]\<close> that \<^verbatim>\<open>file.Read\<close> delivers, and \<open>since\<close> the value of
  \<^verbatim>\<open>time.Since(r.startTime)\<close> read after it, a \<^verbatim>\<open>time.Duration\<close> in nanoseconds.
  The context is the one handed to \<^verbatim>\<open>readHedged\<close>.

  An open file is a finite source: a sequence of reads that report no error
  (\<open>More\<close>), ended by a read that reports \<^verbatim>\<open>io.EOF\<close> or an error of the file
  (\<open>Final\<close>). A read of \<^verbatim>\<open>os.File\<close> into a buffer that is not empty delivers at least
  one byte or reports an error, so a file of finite length is such a sequence.
\<close>

record read_ev =
  loopCtx :: "ctxerr option"
  readCtx :: "ctxerr option"
  chunk :: "byte list"
  since :: int

datatype file_end = AtEOF | Failed oserr

datatype source = Final read_ev file_end | More read_ev source

fun file_status :: "file_end \<Rightarrow> error" where
  "file_status AtEOF = EOF"
| "file_status (Failed e) = OsErr e"

text \<open>
  The fields of \<^verbatim>\<open>HedgingReader\<close> that the reader computes with. The file, the context
  and the start time belong to the environment above. \<open>checkTime\<close> is a duration in
  nanoseconds, \<open>minSpeed\<close> is in Mbps.
\<close>

record HedgingReader =
  bytesRead :: int
  checkTime :: int
  minSpeed :: real

definition NewHedgingReader :: "int \<Rightarrow> real \<Rightarrow> HedgingReader" where
  "NewHedgingReader ct ms = \<lparr>bytesRead = 0, checkTime = ct, minSpeed = ms\<rparr>"

text \<open>
  The float64 arithmetic of the speed check. A finite float64 is a real number with 53
  significant bits. \<open>round64\<close> rounds a real number to the nearest such number, ties to
  the even significand, as every float64 operation of Go rounds its exact result;
  \<open>ulp x\<close> is the spacing of the float64 numbers in the binade of \<open>x\<close>. The exponent
  is not bounded here. For byte counts and durations of the int64 range the operations
  below stay between \<open>10^-16\<close> and \<open>10^23\<close> in magnitude, far from the subnormal
  numbers and from overflow, where float64 rounds as \<open>round64\<close> does.
\<close>

definition round_even :: "real \<Rightarrow> int" where
  "round_even q =
     (let f = \<lfloor>q\<rfloor>; d = q - of_int f
      in if d < 1 / 2 then f else if 1 / 2 < d then f + 1 else if even f then f else f + 1)"

definition ulp :: "real \<Rightarrow> real" where
  "ulp x = 2 powr (of_int \<lfloor>log 2 \<bar>x\<bar>\<rfloor> - 52)"

definition round64 :: "real \<Rightarrow> real" where
  "round64 x = (if x = 0 then 0 else of_int (round_even (x / ulp x)) * ulp x)"

text \<open>
  The conversion \<^verbatim>\<open>float64(n)\<close> of an integer, and the float64 sum, product and
  quotient by a divisor that is not zero.
\<close>

definition float64 :: "int \<Rightarrow> real" where
  "float64 n = round64 (of_int n)"

definition fadd :: "real \<Rightarrow> real \<Rightarrow> real" where
  "fadd a b = round64 (a + b)"

definition fmul :: "real \<Rightarrow> real \<Rightarrow> real" where
  "fmul a b = round64 (a * b)"

definition fquot :: "real \<Rightarrow> real \<Rightarrow> real" where
  "fquot a b = round64 (a / b)"

text \<open>
  The float64 division with its results that are not numbers: a positive dividend over
  zero is \<open>+Inf\<close>, a negative one \<open>-Inf\<close>, zero over zero is \<open>NaN\<close>. The divisor of
  the speed is zero only when no time has elapsed, and is then the positive zero.
\<close>

datatype quot64 = Finite real | PlusInf | MinusInf | NotANumber

definition fdiv :: "real \<Rightarrow> real \<Rightarrow> quot64" where
  "fdiv a b =
     (if b = 0 then (if 0 < a then PlusInf else if a < 0 then MinusInf else NotANumber)
      else Finite (fquot a b))"

text \<open>Go's integer division \<^verbatim>\<open>/\<close> and remainder \<^verbatim>\<open>%\<close>, which truncate towards zero.\<close>

definition quo :: "int \<Rightarrow> int \<Rightarrow> int" where
  "quo a b = sgn a * sgn b * (\<bar>a\<bar> div \<bar>b\<bar>)"

definition rem :: "int \<Rightarrow> int \<Rightarrow> int" where
  "rem a b = a - b * quo a b"

text \<open>
  \<^verbatim>\<open>Duration.Seconds\<close> of package time:
  \<^verbatim>\<open>sec := d / Second; nsec := d % Second; return float64(sec) + float64(nsec)/1e9\<close>.
\<close>

definition Seconds :: "int \<Rightarrow> real" where
  "Seconds d =
     (let sec = quo d 1000000000; nsec = rem d 1000000000
      in fadd (float64 sec) (fquot (float64 nsec) 1000000000))"

text \<open>
  The speed \<^verbatim>\<open>(float64(r.bytesRead) * 8) / (1024 * 1024 * elapsed.Seconds())\<close> and the
  comparison \<^verbatim>\<open>speedMbps < r.minSpeed\<close>, which is false for \<open>+Inf\<close> and \<open>NaN\<close> and
  true for \<open>-Inf\<close>. The minimum is a finite number.
\<close>

definition speedMbps :: "int \<Rightarrow> int \<Rightarrow> quot64" where
  "speedMbps bytes elapsed =
     fdiv (fmul (float64 bytes) 8) (fmul (1024 * 1024) (Seconds elapsed))"

fun below :: "quot64 \<Rightarrow> real \<Rightarrow> bool" where
  "below (Finite v) m = (v < m)"
| "below PlusInf m = False"
| "below MinusInf m = True"
| "below NotANumber m = False"

text \<open>
  \<^verbatim>\<open>HedgingReader.Read\<close>. \<open>st\<close> is the error that \<^verbatim>\<open>file.Read\<close> reports in this call
  (\<open>None\<close> for \<^verbatim>\<open>nil\<close>). The result is the reader, the bytes returned (\<open>n\<close> is
  their number) and the error returned.
\<close>

definition Read :: "HedgingReader \<Rightarrow> read_ev \<Rightarrow> error option \<Rightarrow> HedgingReader \<times> byte list \<times> error option" where
  "Read r ev st =
     (case readCtx ev of
        Some err \<Rightarrow> (r, [], Some (CtxErr err))
      | None \<Rightarrow>
          (let n = length (chunk ev);
               r' = (if n > 0 then r\<lparr>bytesRead := bytesRead r + int n\<rparr> else r);
               elapsed = since ev
           in if elapsed \<ge> checkTime r'
                 \<and> below (speedMbps (bytesRead r') elapsed) (minSpeed r')
              then (r', chunk ev, Some ErrTooSlow)
              else (r', chunk ev, st)))"

section \<open>Hedged fetch (handler.go)\<close>

text \<open>
  The \<^verbatim>\<open>io.Reader\<close> that \<^verbatim>\<open>doRead\<close> reads from: the \<^verbatim>\<open>HedgingReader\<close> when
  \<^verbatim>\<open>useSpeedLimit\<close> is set, the file itself otherwise.
\<close>

fun reader_Read :: "HedgingReader option \<Rightarrow> read_ev \<Rightarrow> error option
    \<Rightarrow> HedgingReader option \<times> byte list \<times> error option" where
  "reader_Read (Some r) ev st = (case Read r ev st of (r', data, err) \<Rightarrow> (Some r', data, err))"
| "reader_Read None ev st = (None, chunk ev, st)"

text \<open>
  How the loop of \<^verbatim>\<open>doRead\<close> leaves on an error of the reader: \<^verbatim>\<open>io.EOF\<close> breaks the
  loop and the buffer is returned, any other error is returned.
\<close>

definition loop_exit :: "error \<Rightarrow> byte list \<Rightarrow> error + byte list" where
  "loop_exit readErr buf = (if readErr = EOF then Inr buf else Inl readErr)"

text \<open>
  The loop of \<^verbatim>\<open>doRead\<close> over an open source, with the reader and the buffer so far.
  On the last read of a source the file reports an error, and so does the reader
  (\<open>reader_Read_final\<close> below): the case \<open>None\<close> of the second equation is never taken.
\<close>

fun doRead_loop :: "HedgingReader option \<Rightarrow> byte list \<Rightarrow> source \<Rightarrow> error + byte list" where
  "doRead_loop rd buf (More ev rest) =
     (case loopCtx ev of
        Some err \<Rightarrow> Inl (CtxErr err)
      | None \<Rightarrow>
          (case reader_Read rd ev None of
             (rd', data, None) \<Rightarrow> doRead_loop rd' (buf @ data) rest
           | (rd', data, Some readErr) \<Rightarrow> loop_exit readErr (buf @ data)))"
| "doRead_loop rd buf (Final ev fe) =
     (case loopCtx ev of
        Some err \<Rightarrow> Inl (CtxErr err)
      | None \<Rightarrow>
          (case reader_Read rd ev (Some (file_status fe)) of
             (rd', data, None) \<Rightarrow> Inr (buf @ data)
           | (rd', data, Some readErr) \<Rightarrow> loop_exit readErr (buf @ data)))"

text \<open>
  The configuration of \<^verbatim>\<open>FileHandler\<close>; its fields \<^verbatim>\<open>checkTime\<close> and \<^verbatim>\<open>minSpeed\<close>
  carry the prefix \<open>h_\<close> here, the reader's fields having the plain names. The cache of
  the handler is passed on its own where it is used.
\<close>

record FileHandler =
  baseDir :: string
  h_checkTime :: int
  h_minSpeed :: real
  hedgedDelay :: int

text \<open>
  What a fetch does to the world outside: \<^verbatim>\<open>os.Open\<close>, with the flag
  \<^verbatim>\<open>useSpeedLimit\<close> of the attempt that opens, and \<^verbatim>\<open>time.Sleep\<close>, with its
  duration. \<open>opens\<close> counts the calls of \<^verbatim>\<open>os.Open\<close>; the environment says what the
  \<open>i\<close>-th of them finds.
\<close>

datatype attempt = OpenFails oserr | Opens source

datatype event = EvOpen bool | EvSleep int

record world =
  opens :: nat
  trace :: "event list"

definition doRead :: "FileHandler \<Rightarrow> (nat \<Rightarrow> attempt) \<Rightarrow> world \<Rightarrow> bool
    \<Rightarrow> world \<times> (error + byte list)" where
  "doRead h env w useSpeedLimit =
     (let w' = w\<lparr>opens := Suc (opens w), trace := trace w @ [EvOpen useSpeedLimit]\<rparr> in
      case env (opens w) of
        OpenFails err \<Rightarrow> (w', Inl (OsErr err))
      | Opens file \<Rightarrow>
          (w', doRead_loop
                 (if useSpeedLimit
                  then Some (NewHedgingReader (h_checkTime h) (h_minSpeed h)) else None)
                 [] file))"

definition readHedged :: "FileHandler \<Rightarrow> (nat \<Rightarrow> attempt) \<Rightarrow> world
    \<Rightarrow> world \<times> (error + byte list)" where
  "readHedged h env w =
     (case doRead h env w True of
        (w1, Inr data) \<Rightarrow> (w1, Inr data)
      | (w1, Inl err) \<Rightarrow>
          if err = ErrTooSlow
          then doRead h env (w1\<lparr>trace := trace w1 @ [EvSleep (hedgedDelay h)]\<rparr>) False
          else (w1, Inl err))"

text \<open>
  The part of \<^verbatim>\<open>ServeHTTP\<close> after the cache miss. \<^verbatim>\<open>sfGroup.Do\<close> of package
  singleflight runs the function it is given in the first caller of a key and hands the
  result of that one run to every caller that asks for the key while it is in flight.
  The function run is \<^verbatim>\<open>readHedged(r.Context(), filePath)\<close> with the request \<open>r\<close> of the
  first caller: the answers \<open>loopCtx\<close> and \<open>readCtx\<close> of the flight are those of the
  first caller's context. \<open>flight\<close> is the result of the run; \<open>respond\<close> is what a
  caller that received it does: an error becomes the status 404 or 500, a payload is
  stored in the cache and served.
\<close>

datatype response = NotFound | InternalServerError | Content "byte list"

definition flight :: "FileHandler \<Rightarrow> (nat \<Rightarrow> attempt) \<Rightarrow> error + byte list" where
  "flight h env = snd (readHedged h env \<lparr>opens = 0, trace = []\<rparr>)"

definition respond :: "MemoryCache \<Rightarrow> string \<Rightarrow> error + byte list \<Rightarrow> MemoryCache \<times> response" where
  "respond c filePath res =
     (case res of
        Inl err \<Rightarrow> (c, if err = OsErr ErrNotExist then NotFound else InternalServerError)
      | Inr data \<Rightarrow> (Set c filePath data, Content data))"

text \<open>
  The verdict of the speed check of one read, on the reader as it is after counting the
  read's bytes, and the sources on which the check never finds the speed below the
  minimum. \<open>count\<close> is the counting step of \<^verbatim>\<open>Read\<close>.
\<close>

definition count :: "HedgingReader \<Rightarrow> read_ev \<Rightarrow> HedgingReader" where
  "count r ev =
     (if length (chunk ev) > 0 then r\<lparr>bytesRead := bytesRead r + int (length (chunk ev))\<rparr>
      else r)"

definition trips :: "HedgingReader \<Rightarrow> read_ev \<Rightarrow> bool" where
  "trips r ev \<longleftrightarrow>
     since ev \<ge> checkTime r \<and> below (speedMbps (bytesRead (count r ev)) (since ev)) (minSpeed r)"

fun steady :: "HedgingReader \<Rightarrow> source \<Rightarrow> bool" where
  "steady r (Final ev fe) = (\<not> trips r ev)"
| "steady r (More ev rest) = (\<not> trips r ev \<and> steady (count r ev) rest)"

text \<open>
  The calls of \<^verbatim>\<open>Read\<close> of one guarded session, as the loop of \<^verbatim>\<open>doRead\<close> makes
  them, with the bytes and the error each call returns: the loop stops at a cancelled
  context and after the first call that returns an error.
\<close>

fun read_calls :: "HedgingReader \<Rightarrow> source \<Rightarrow> (byte list \<times> error option) list" where
  "read_calls r (Final ev fe) =
     (case loopCtx ev of
        Some err \<Rightarrow> []
      | None \<Rightarrow> (case Read r ev (Some (file_status fe)) of (r', data, err) \<Rightarrow> [(data, err)]))"
| "read_calls r (More ev rest) =
     (case loopCtx ev of
        Some err \<Rightarrow> []
      | None \<Rightarrow>
          (case Read r ev None of
             (r', data, None) \<Rightarrow> (data, None) # read_calls r' rest
           | (r', data, Some readErr) \<Rightarrow> [(data, Some readErr)]))"

text \<open>
  The clock readings of a source, in the order of its reads. \<^verbatim>\<open>time.Since\<close> reads a
  monotonic clock: the readings of a real session never decrease.
\<close>

fun readings :: "source \<Rightarrow> int list" where
  "readings (Final ev fe) = [since ev]"
| "readings (More ev rest) = since ev # readings rest"

fun end_reading :: "source \<Rightarrow> int" where
  "end_reading (Final ev fe) = since ev"
| "end_reading (More ev rest) = end_reading rest"


text \<open>
  A source on which the speed check passes on every read but the last, where it finds the
  speed below the minimum.
\<close>

fun trips_at_end :: "HedgingReader \<Rightarrow> source \<Rightarrow> bool" where
  "trips_at_end r (Final ev fe) = trips r ev"
| "trips_at_end r (More ev rest) = (\<not> trips r ev \<and> trips_at_end (count r ev) rest)"

text \<open>
  A source read under a context that is never cancelled; the bytes of a source; the
  error its last read reports.
\<close>

fun live :: "source \<Rightarrow> bool" where
  "live (Final ev fe) = (loopCtx ev = None \<and> readCtx ev = None)"
| "live (More ev rest) = (loopCtx ev = None \<and> readCtx ev = None \<and> live rest)"

fun contents :: "source \<Rightarrow> byte list" where
  "contents (Final ev fe) = chunk ev"
| "contents (More ev rest) = chunk ev @ contents rest"

fun ending :: "source \<Rightarrow> file_end" where
  "ending (Final ev fe) = fe"
| "ending (More ev rest) = ending rest"

text \<open>
  The throughput in the words of the specification, as an exact number: cumulative bytes
  times eight over the seconds elapsed, in bits per second. \<open>rnd_lo\<close> and \<open>rnd_hi\<close>
  bound the factor by which one float64 rounding changes a number.
\<close>

definition rnd_lo :: real where
  "rnd_lo = 1 - 1 / 2 ^ 53"

definition rnd_hi :: real where
  "rnd_hi = 1 + 1 / 2 ^ 53"

definition bits_per_second :: "int \<Rightarrow> int \<Rightarrow> real" where
  "bits_per_second bytes elapsed = (real_of_int bytes * 8) / (real_of_int elapsed / 10 ^ 9)"

section \<open>Concrete inputs\<close>

text \<open>
  The configuration that \<^verbatim>\<open>main\<close> builds from the defaults of its flags: a measurement
  window of one second, a minimum of 5 Mbps, a hedge delay of 100 milliseconds.
\<close>

definition default_handler :: FileHandler where
  "default_handler =
     \<lparr>baseDir = ''./data'', h_checkTime = 1000000000, h_minSpeed = 5, hedgedDelay = 100000000\<rparr>"

definition start_world :: world where
  "start_world = \<lparr>opens = 0, trace = []\<rparr>"

text \<open>A read under a context that is not cancelled, delivering \<open>data\<close> at time \<open>t\<close>.\<close>

definition quiet_read :: "byte list \<Rightarrow> int \<Rightarrow> read_ev" where
  "quiet_read data t = \<lparr>loopCtx = None, readCtx = None, chunk = data, since = t\<rparr>"

text \<open>A small file that is read at once.\<close>

definition small_file :: source where
  "small_file = More (quiet_read [1, 2, 3] 1000) (Final (quiet_read [] 2000) AtEOF)"

text \<open>
  A file of one MiB whose bytes have all arrived when the window of one second closes
  (8 Mbps then), and whose end of data is only seen after sixteen seconds.
\<close>

definition stalled_file :: source where
  "stalled_file =
     More (quiet_read (replicate 1048576 0) 1000000000)
       (Final (quiet_read [] 16000000000) AtEOF)"

text \<open>
  The small file again, read under the context of a request whose client goes away after
  the first read: from then on the context reports \<^verbatim>\<open>context.Canceled\<close>.
\<close>

definition dropped_file :: source where
  "dropped_file =
     More (quiet_read [1, 2, 3] 1000)
       (Final \<lparr>loopCtx = Some Canceled, readCtx = Some Canceled, chunk = [], since = 2000\<rparr> AtEOF)"

definition six :: "byte list" where
  "six = [1, 2, 3, 4, 5, 6]"

definition eleven :: "byte list" where
  "eleven = [1, 2, 3, 4, 5, 6, 7, 8, 9, 10, 11]"

definition brisk_file :: source where
  "brisk_file =
     More (quiet_read (replicate 1048576 0) 500000000)
       (More (quiet_read (replicate 1048576 0) 1000000000)
          (Final (quiet_read [] 2000000000) AtEOF))"

text \<open>
  An environment whose first \<^verbatim>\<open>os.Open\<close> finds the stalled file and whose later ones
  find the small file; one where the file does not exist.
\<close>

definition stall_then_small :: "nat \<Rightarrow> attempt" where
  "stall_then_small i = (if i = 0 then Opens stalled_file else Opens small_file)"

definition missing :: "nat \<Rightarrow> attempt" where
  "missing i = OpenFails ErrNotExist"

text \<open>
  The run of the specification's scenario of least-recently-used eviction: three keys are
  set, the first is looked up, a fourth is set. \<open>abc\<close> is the cache after the three
  insertions, \<open>abc_get_d\<close> the cache at the end.
\<close>

definition abc :: "int \<Rightarrow> string \<Rightarrow> byte list \<Rightarrow> string \<Rightarrow> byte list \<Rightarrow> string \<Rightarrow> byte list
    \<Rightarrow> MemoryCache" where
  "abc B kA dA kB dB kC dC = run_ops (NewMemoryCache B) [OpSet kA dA, OpSet kB dB, OpSet kC dC]"

definition abc_get_d :: "int \<Rightarrow> string \<Rightarrow> byte list \<Rightarrow> string \<Rightarrow> byte list \<Rightarrow> string \<Rightarrow> byte list
    \<Rightarrow> string \<Rightarrow> byte list \<Rightarrow> MemoryCache" where
  "abc_get_d B kA dA kB dB kC dC kD dD = Set (fst (Get (abc B kA dA kB dB kC dC) kA)) kD dD"

section \<open>The cache keeps its invariant\<close>


lemma evict_stop: "\<not> (usedBytes c > maxBytes c \<and> ll c \<noteq> []) \<Longrightarrow> evict c = c"
  by (subst evict.simps) auto

lemma evict_step:
  "usedBytes c > maxBytes c \<Longrightarrow> ll c \<noteq> [] \<Longrightarrow> evict c = evict (drop_back c)"
  by (subst evict.simps) (simp add: Let_def drop_back_def)

lemma evict_cases [case_names stop step]:
  assumes "\<And>c. \<not> (usedBytes c > maxBytes c \<and> ll c \<noteq> []) \<Longrightarrow> P c"
    and "\<And>c. usedBytes c > maxBytes c \<Longrightarrow> ll c \<noteq> [] \<Longrightarrow> P (drop_back c) \<Longrightarrow> P c"
  shows "P c"
proof (induction c rule: evict.induct)
  case (1 c)
  show ?case
  proof (cases "usedBytes c > maxBytes c \<and> ll c \<noteq> []")
    case False
    then show ?thesis by (rule assms(1))
  next
    case True
    then have "P (drop_back c)"
      using "1.IH"[OF _ refl refl] by (simp add: drop_back_def)
    with True show ?thesis by (auto intro: assms(2))
  qed
qed

lemma cache_inv_New: "cache_inv (NewMemoryCache mx)"
  by (simp add: cache_inv_def NewMemoryCache_def)

lemma set_MoveToFront [simp]: "set (MoveToFront l e) = set l"
proof (cases "e \<in> set l")
  case True
  have "x \<in> set l" if "x \<in> set (remove1 e l)" for x
    using that set_remove1_subset[of e l] by blast
  moreover have "x \<in> set (remove1 e l)" if "x \<in> set l" "x \<noteq> e" for x
    using that by (simp add: in_set_remove1)
  ultimately have "insert e (set (remove1 e l)) = set l"
    using True by blast
  then have "set (e # remove1 e l) = set l"
    by simp
  with True show ?thesis by (simp add: MoveToFront_def)
next
  case False
  then show ?thesis by (simp add: MoveToFront_def)
qed

lemma distinct_MoveToFront [simp]: "distinct l \<Longrightarrow> distinct (MoveToFront l e)"
  by (auto simp: MoveToFront_def)

lemma sum_MoveToFront [simp]:
  "(\<Sum>x\<leftarrow>MoveToFront l e. (f x :: int)) = (\<Sum>x\<leftarrow>l. f x)"
  by (simp add: MoveToFront_def sum_list_map_remove1)

lemma cache_inv_Get: "cache_inv c \<Longrightarrow> cache_inv (fst (Get c key))"
  by (auto simp: cache_inv_def Get_def split: option.splits)

lemma cache_inv_drop_back:
  assumes inv: "cache_inv c" and ne: "ll c \<noteq> []"
  shows "cache_inv (drop_back c)"
proof -
  define elem where "elem = last (ll c)"
  define front where "front = butlast (ll c)"
  have split: "ll c = front @ [elem]" using ne by (simp add: elem_def front_def)
  have d: "distinct (ll c)"
    and idx: "\<And>k e. cache c k = Some e \<Longrightarrow> e \<in> set (ll c) \<and> Key (Value c e) = k"
    and rev_idx: "\<And>e. e \<in> set (ll c) \<Longrightarrow> cache c (Key (Value c e)) = Some e"
    and used: "usedBytes c = (\<Sum>e\<leftarrow>ll c. int (length (Data (Value c e))))"
    and alloc: "\<And>e. e \<in> set (ll c) \<Longrightarrow> e < allocated c"
    using inv by (auto simp: cache_inv_def)
  have notin: "elem \<notin> set front" and dfront: "distinct front"
    using d split by auto
  have sub: "\<And>e. e \<in> set front \<Longrightarrow> e \<in> set (ll c)" and last_in: "elem \<in> set (ll c)"
    using split by auto
  have key_ne: "Key (Value c e) \<noteq> Key (Value c elem)" if "e \<in> set front" for e
  proof
    assume "Key (Value c e) = Key (Value c elem)"
    then have "e = elem"
      using rev_idx[OF sub[OF that]] rev_idx[OF last_in] by (metis option.inject)
    with that notin show False by simp
  qed
  have c1: "distinct (ll (drop_back c))"
    using dfront by (simp add: drop_back_def front_def)
  have c2: "e \<in> set (ll (drop_back c)) \<and> Key (Value (drop_back c) e) = k"
    if "cache (drop_back c) k = Some e" for k e
  proof -
    from that have k: "k \<noteq> Key (Value c elem)" and ck: "cache c k = Some e"
      by (auto simp: drop_back_def elem_def split: if_splits)
    from idx[OF ck] k have "e \<noteq> elem" by auto
    with idx[OF ck] split have "e \<in> set front" by auto
    with idx[OF ck] show ?thesis by (simp add: drop_back_def front_def)
  qed
  have c3: "cache (drop_back c) (Key (Value (drop_back c) e)) = Some e"
    if "e \<in> set (ll (drop_back c))" for e
  proof -
    from that have f: "e \<in> set front" by (simp add: drop_back_def front_def)
    show ?thesis using key_ne[OF f] rev_idx[OF sub[OF f]]
      by (simp add: drop_back_def elem_def)
  qed
  have c4: "usedBytes (drop_back c)
      = (\<Sum>e\<leftarrow>ll (drop_back c). int (length (Data (Value (drop_back c) e))))"
  proof -
    have "(\<Sum>e\<leftarrow>ll c. int (length (Data (Value c e))))
        = (\<Sum>e\<leftarrow>front. int (length (Data (Value c e)))) + int (length (Data (Value c elem)))"
      by (subst split) simp
    with used show ?thesis by (simp add: drop_back_def elem_def front_def)
  qed
  have c5: "e < allocated (drop_back c)" if "e \<in> set (ll (drop_back c))" for e
    using that alloc[OF sub] by (simp add: drop_back_def front_def)
  show ?thesis
    unfolding cache_inv_def using c1 c2 c3 c4 c5 by blast
qed

lemma cache_inv_evict: "cache_inv c \<Longrightarrow> cache_inv (evict c)"
proof (induction c rule: evict_cases)
  case (stop c)
  then show ?case by (simp add: evict_stop)
next
  case (step c)
  then show ?case by (simp add: evict_step cache_inv_drop_back)
qed


lemma drop_back_maxBytes [simp]: "maxBytes (drop_back c) = maxBytes c"
  by (simp add: drop_back_def)

lemma evict_maxBytes [simp]: "maxBytes (evict c) = maxBytes c"
  by (induction c rule: evict_cases) (simp_all add: evict_stop evict_step)

lemma evict_post: "usedBytes (evict c) \<le> maxBytes c \<or> ll (evict c) = []"
proof (induction c rule: evict_cases)
  case (stop c)
  then show ?case by (auto simp: evict_stop)
next
  case (step c)
  then show ?case by (simp add: evict_step)
qed

lemma evict_within_budget:
  assumes "cache_inv c" and "0 \<le> maxBytes c"
  shows "usedBytes (evict c) \<le> maxBytes c"
proof -
  have "cache_inv (evict c)" using assms(1) by (rule cache_inv_evict)
  then have "ll (evict c) = [] \<Longrightarrow> usedBytes (evict c) = 0"
    by (simp add: cache_inv_def)
  with evict_post[of c] assms(2) show ?thesis by auto
qed

lemma Set_unfold:
  "Set c key data =
     (if int (length data) > maxBytes c then c
      else case cache c key of Some elem \<Rightarrow> evict (touch c elem data)
                             | None \<Rightarrow> evict (push c key data))"
  by (simp add: Set_def Let_def touch_def push_def split: option.splits)

lemma cache_inv_touch:
  assumes inv: "cache_inv c" and hit: "cache c key = Some elem"
  shows "cache_inv (touch c elem data)"
proof -
  have d: "distinct (ll c)"
    and idx: "\<And>k e. cache c k = Some e \<Longrightarrow> e \<in> set (ll c) \<and> Key (Value c e) = k"
    and rev_idx: "\<And>e. e \<in> set (ll c) \<Longrightarrow> cache c (Key (Value c e)) = Some e"
    and used: "usedBytes c = (\<Sum>e\<leftarrow>ll c. int (length (Data (Value c e))))"
    and alloc: "\<And>e. e \<in> set (ll c) \<Longrightarrow> e < allocated c"
    using inv by (auto simp: cache_inv_def)
  have mem: "elem \<in> set (ll c)" using idx[OF hit] by simp
  have mtf: "MoveToFront (ll c) elem = elem # remove1 elem (ll c)"
    using mem by (simp add: MoveToFront_def)
  have notin: "elem \<notin> set (remove1 elem (ll c))" using d by simp
  have sum_old: "(\<Sum>e\<leftarrow>ll c. int (length (Data (Value c e))))
      = int (length (Data (Value c elem)))
        + (\<Sum>e\<leftarrow>remove1 elem (ll c). int (length (Data (Value c e))))"
    using mem by (rule sum_list_map_remove1)
  have same: "(\<Sum>e\<leftarrow>remove1 elem (ll c). int (length (Data (Value (touch c elem data) e))))
            = (\<Sum>e\<leftarrow>remove1 elem (ll c). int (length (Data (Value c e))))"
    using notin by (intro arg_cong[where f = sum_list] map_cong) (auto simp: touch_def)
  have l: "ll (touch c elem data) = elem # remove1 elem (ll c)"
    by (simp add: touch_def mtf)
  have v: "Data (Value (touch c elem data) elem) = data"
    by (simp add: touch_def)
  have u: "usedBytes (touch c elem data)
      = usedBytes c - int (length (Data (Value c elem))) + int (length data)"
    by (simp add: touch_def)
  have c4: "usedBytes (touch c elem data)
      = (\<Sum>e\<leftarrow>ll (touch c elem data). int (length (Data (Value (touch c elem data) e))))"
    unfolding l u using used sum_old same v by simp
  have c1: "distinct (ll (touch c elem data))" using d by (simp add: touch_def)
  have c2: "e \<in> set (ll (touch c elem data)) \<and> Key (Value (touch c elem data) e) = k"
    if "cache (touch c elem data) k = Some e" for k e
    using idx[of k e] that by (auto simp: touch_def)
  have c3: "cache (touch c elem data) (Key (Value (touch c elem data) e)) = Some e"
    if "e \<in> set (ll (touch c elem data))" for e
    using rev_idx[of e] that by (auto simp: touch_def)
  have c5: "e < allocated (touch c elem data)" if "e \<in> set (ll (touch c elem data))" for e
    using alloc[of e] that by (simp add: touch_def)
  show ?thesis unfolding cache_inv_def using c1 c2 c3 c4 c5 by blast
qed

lemma cache_inv_push:
  assumes inv: "cache_inv c" and miss: "cache c key = None"
  shows "cache_inv (push c key data)"
proof -
  define elem where "elem = allocated c"
  have d: "distinct (ll c)"
    and idx: "\<And>k e. cache c k = Some e \<Longrightarrow> e \<in> set (ll c) \<and> Key (Value c e) = k"
    and rev_idx: "\<And>e. e \<in> set (ll c) \<Longrightarrow> cache c (Key (Value c e)) = Some e"
    and used: "usedBytes c = (\<Sum>e\<leftarrow>ll c. int (length (Data (Value c e))))"
    and alloc: "\<And>e. e \<in> set (ll c) \<Longrightarrow> e < allocated c"
    using inv by (auto simp: cache_inv_def)
  have fresh: "elem \<notin> set (ll c)" using alloc[of elem] by (auto simp: elem_def)
  have key_ne: "Key (Value c e) \<noteq> key" if "e \<in> set (ll c)" for e
    using rev_idx[OF that] miss by auto
  have same: "(\<Sum>e\<leftarrow>ll c. int (length (Data (Value (push c key data) e))))
            = (\<Sum>e\<leftarrow>ll c. int (length (Data (Value c e))))"
    using fresh by (intro arg_cong[where f = sum_list] map_cong) (auto simp: push_def elem_def)
  have l: "ll (push c key data) = elem # ll c"
    by (simp add: push_def elem_def)
  have v: "Data (Value (push c key data) elem) = data"
    by (simp add: push_def elem_def)
  have u: "usedBytes (push c key data) = usedBytes c + int (length data)"
    by (simp add: push_def)
  have c4: "usedBytes (push c key data)
      = (\<Sum>e\<leftarrow>ll (push c key data). int (length (Data (Value (push c key data) e))))"
    unfolding l u using used same v by simp
  have c1: "distinct (ll (push c key data))" using d fresh by (simp add: push_def elem_def)
  have c2: "e \<in> set (ll (push c key data)) \<and> Key (Value (push c key data) e) = k"
    if "cache (push c key data) k = Some e" for k e
    using idx[of k e] that fresh by (auto simp: push_def elem_def split: if_splits)
  have c3: "cache (push c key data) (Key (Value (push c key data) e)) = Some e"
    if "e \<in> set (ll (push c key data))" for e
    using rev_idx[of e] key_ne[of e] that fresh by (auto simp: push_def elem_def)
  have c5: "e < allocated (push c key data)" if "e \<in> set (ll (push c key data))" for e
    using alloc[of e] that by (auto simp: push_def)
  show ?thesis unfolding cache_inv_def using c1 c2 c3 c4 c5 by blast
qed

lemma cache_inv_Set: "cache_inv c \<Longrightarrow> cache_inv (Set c key data)"
  by (auto simp: Set_unfold cache_inv_evict cache_inv_touch cache_inv_push split: option.splits)

lemma Set_maxBytes [simp]: "maxBytes (Set c key data) = maxBytes c"
  by (simp add: Set_unfold touch_def push_def split: option.splits)

lemma Set_within_budget:
  assumes "cache_inv c" and "0 \<le> maxBytes c \<longrightarrow> usedBytes c \<le> maxBytes c"
  shows "0 \<le> maxBytes c \<longrightarrow> usedBytes (Set c key data) \<le> maxBytes c"
proof (cases "int (length data) > maxBytes c")
  case True
  then show ?thesis using assms(2) by (simp add: Set_unfold)
next
  case False
  then have nn: "0 \<le> maxBytes c" by linarith
  show ?thesis
  proof (cases "cache c key")
    case None
    have "usedBytes (evict (push c key data)) \<le> maxBytes (push c key data)"
      using cache_inv_push[OF assms(1) None] nn by (intro evict_within_budget) (simp_all add: push_def)
    with False None show ?thesis by (simp add: Set_unfold push_def)
  next
    case (Some elem)
    have "usedBytes (evict (touch c elem data)) \<le> maxBytes (touch c elem data)"
      using cache_inv_touch[OF assms(1) Some] nn by (intro evict_within_budget) (simp_all add: touch_def)
    with False Some show ?thesis by (simp add: Set_unfold touch_def)
  qed
qed


lemma agrees_Get: "agrees c m \<Longrightarrow> agrees (fst (Get c key)) m"
  by (auto simp: agrees_def Get_def split: option.splits)

lemma agrees_evict: "agrees c m \<Longrightarrow> agrees (evict c) m"
proof (induction c rule: evict_cases)
  case (stop c)
  then show ?case by (simp add: evict_stop)
next
  case (step c)
  from step.prems have "agrees (drop_back c) m"
    by (auto simp: agrees_def drop_back_def split: if_splits)
  with step show ?case by (simp add: evict_step)
qed

lemma agrees_touch:
  assumes "cache_inv c" and "agrees c m" and hit: "cache c key = Some elem"
  shows "agrees (touch c elem data) (m(key \<mapsto> data))"
proof -
  have idx: "\<And>k e. cache c k = Some e \<Longrightarrow> Key (Value c e) = k"
    using assms(1) by (auto simp: cache_inv_def)
  have "(m(key \<mapsto> data)) k = Some (Data (Value (touch c elem data) e))"
    if "cache (touch c elem data) k = Some e" for k e
  proof -
    from that have ck: "cache c k = Some e" by (simp add: touch_def)
    show ?thesis
    proof (cases "e = elem")
      case True
      with idx[OF ck] idx[OF hit] have "k = key" by simp
      with True show ?thesis by (simp add: touch_def)
    next
      case False
      with idx[OF ck] idx[OF hit] ck hit have "k \<noteq> key" by auto
      with False ck assms(2) show ?thesis by (simp add: touch_def agrees_def)
    qed
  qed
  then show ?thesis by (simp add: agrees_def)
qed

lemma agrees_push:
  assumes "cache_inv c" and "agrees c m"
  shows "agrees (push c key data) (m(key \<mapsto> data))"
proof -
  have lt: "\<And>k e. cache c k = Some e \<Longrightarrow> e < allocated c"
    using assms(1) by (auto simp: cache_inv_def)
  have "(m(key \<mapsto> data)) k = Some (Data (Value (push c key data) e))"
    if "cache (push c key data) k = Some e" for k e
  proof (cases "k = key")
    case True
    with that show ?thesis by (auto simp: push_def)
  next
    case False
    with that have ck: "cache c k = Some e" by (simp add: push_def)
    with lt have "e \<noteq> allocated c" by auto
    with False ck assms(2) show ?thesis by (simp add: push_def agrees_def)
  qed
  then show ?thesis by (simp add: agrees_def)
qed

lemma agrees_Set:
  assumes "cache_inv c" and "agrees c m"
  shows "agrees (Set c key data) (record_set (maxBytes c) m (OpSet key data))"
  using assms
  by (auto simp: Set_unfold split: option.splits
           intro!: agrees_evict agrees_touch agrees_push)

lemma apply_op_maxBytes [simp]: "maxBytes (apply_op c op) = maxBytes c"
  by (cases op) (simp_all add: Get_def split: option.splits)

lemma cache_ok_apply_op:
  assumes "cache_ok c m"
  shows "cache_ok (apply_op c op) (record_set (maxBytes c) m op)"
proof (cases op)
  case (OpGet key)
  have "usedBytes (fst (Get c key)) = usedBytes c" "maxBytes (fst (Get c key)) = maxBytes c"
    by (simp_all add: Get_def split: option.splits)
  with assms OpGet show ?thesis
    by (simp add: cache_ok_def cache_inv_Get agrees_Get)
next
  case (OpSet key data)
  with assms show ?thesis
    using Set_within_budget[of c key data] agrees_Set[of c m key data]
    by (simp add: cache_ok_def cache_inv_Set)
qed

lemma NewMemoryCache_maxBytes [simp]: "maxBytes (NewMemoryCache B) = B"
  by (simp add: NewMemoryCache_def)

lemma run_ops_maxBytes [simp]: "maxBytes (run_ops c ops) = maxBytes c"
  by (induction ops rule: rev_induct) (simp_all add: run_ops_def)

lemma cache_ok_run_ops:
  "cache_ok (run_ops (NewMemoryCache B) ops) (accepted B ops)"
proof (induction ops rule: rev_induct)
  case Nil
  have "agrees (NewMemoryCache B) Map.empty" "usedBytes (NewMemoryCache B) = 0"
    by (simp_all add: agrees_def NewMemoryCache_def)
  then show ?case
    by (simp add: run_ops_def accepted_def cache_ok_def cache_inv_New)
next
  case (snoc op ops)
  have B: "maxBytes (run_ops (NewMemoryCache B) ops) = B"
    by simp
  from cache_ok_apply_op[OF snoc.IH, of op] show ?case
    by (simp add: run_ops_def accepted_def B[unfolded run_ops_def])
qed

lemma evict_prefix: "ll (evict c) = take (length (ll (evict c))) (ll c)"
proof (induction c rule: evict_cases)
  case (stop c)
  then show ?case by (simp add: evict_stop)
next
  case (step c)
  let ?n = "length (ll (evict (drop_back c)))"
  have "ll (evict (drop_back c)) = take ?n (butlast (ll c))"
    using step.IH by (simp add: drop_back_def)
  moreover from this have "?n = min (length (butlast (ll c))) ?n"
    by (metis length_take)
  then have "?n \<le> length (butlast (ll c))"
    by linarith
  moreover have "length (butlast (ll c)) < length (ll c)"
    using step.hyps(2) by simp
  ultimately have "ll (evict (drop_back c)) = take ?n (ll c)"
    by (simp add: take_butlast)
  then show ?case
    using step.hyps by (simp add: evict_step)
qed

lemma Get_hit:
  "cache c key = Some e \<Longrightarrow> e \<in> set (ll c) \<Longrightarrow>
     Get c key = (c\<lparr>ll := e # remove1 e (ll c)\<rparr>, Some (Data (Value c e)))"
  by (simp add: Get_def MoveToFront_def)

lemma Set_prefix:
  assumes "int (length data) \<le> maxBytes c"
  shows "ll (Set c key data) =
     take (length (ll (Set c key data)))
       (case cache c key of
          Some elem \<Rightarrow> MoveToFront (ll c) elem
        | None \<Rightarrow> allocated c # ll c)"
proof (cases "cache c key")
  case None
  have "ll (push c key data) = allocated c # ll c"
    by (simp add: push_def)
  with evict_prefix[of "push c key data"] None assms show ?thesis
    by (simp add: Set_unfold)
next
  case (Some elem)
  have "ll (touch c elem data) = MoveToFront (ll c) elem"
    by (simp add: touch_def)
  with evict_prefix[of "touch c elem data"] Some assms show ?thesis
    by (simp add: Set_unfold)
qed

section \<open>Float64 rounding\<close>

lemma round_even_of_int [simp]: "round_even (of_int n) = n"
  by (simp add: round_even_def)

lemma round_even_err: "\<bar>of_int (round_even q) - q\<bar> \<le> 1 / 2"
proof -
  have "of_int \<lfloor>q\<rfloor> \<le> q" "q < of_int \<lfloor>q\<rfloor> + 1" by linarith+
  then show ?thesis
    by (auto simp: round_even_def Let_def)
qed

lemma binade:
  assumes "x \<noteq> 0"
  shows "2 powr of_int \<lfloor>log 2 \<bar>x\<bar>\<rfloor> \<le> \<bar>x\<bar>" "\<bar>x\<bar> < 2 powr (of_int \<lfloor>log 2 \<bar>x\<bar>\<rfloor> + 1)"
  using floor_log_eq_powr_iff[of "\<bar>x\<bar>" 2 "\<lfloor>log 2 \<bar>x\<bar>\<rfloor>"] assms by auto

lemma ulp_pos [simp]: "0 < ulp x"
  by (simp add: ulp_def)

lemma ulp_nz [simp]: "ulp x \<noteq> 0"
  by (simp add: ulp_def)

lemma abs_ulp [simp]: "\<bar>ulp x\<bar> = ulp x"
  by (simp add: ulp_def)

lemma ulp_le: "x \<noteq> 0 \<Longrightarrow> ulp x \<le> \<bar>x\<bar> / 2 ^ 52"
proof -
  assume x: "x \<noteq> 0"
  have "ulp x = 2 powr of_int \<lfloor>log 2 \<bar>x\<bar>\<rfloor> / 2 ^ 52"
    by (simp add: ulp_def powr_diff)
  with binade(1)[OF x] show ?thesis
    by (simp add: divide_right_mono)
qed

lemma round64_err: "\<bar>round64 x - x\<bar> \<le> \<bar>x\<bar> / 2 ^ 53"
proof (cases "x = 0")
  case True
  then show ?thesis by (simp add: round64_def)
next
  case False
  let ?u = "ulp x"
  have "round64 x - x = (of_int (round_even (x / ?u)) - x / ?u) * ?u"
    using False by (simp add: round64_def algebra_simps)
  then have "\<bar>round64 x - x\<bar> = \<bar>of_int (round_even (x / ?u)) - x / ?u\<bar> * ?u"
    by (simp add: abs_mult)
  also have "\<dots> \<le> (1 / 2) * ?u"
    by (intro mult_right_mono round_even_err) (simp add: ulp_def)
  also have "\<dots> \<le> (1 / 2) * (\<bar>x\<bar> / 2 ^ 52)"
    using ulp_le[OF False] by simp
  also have "\<dots> = \<bar>x\<bar> / 2 ^ 53" by simp
  finally show ?thesis .
qed


lemma round64_exact:
  assumes "\<bar>m\<bar> < 2 ^ 53"
  shows "round64 (of_int m * 2 powr of_int k) = of_int m * 2 powr of_int k"
proof (cases "m = 0")
  case True
  then show ?thesis by (simp add: round64_def)
next
  case False
  let ?x = "of_int m * 2 powr of_int k :: real"
  have x: "?x \<noteq> 0" using False by simp
  define e where "e = \<lfloor>log 2 \<bar>?x\<bar>\<rfloor>"
  have "2 powr of_int e \<le> \<bar>?x\<bar>" using binade(1)[OF x] by (simp add: e_def)
  also have "\<bar>?x\<bar> = \<bar>of_int m\<bar> * 2 powr of_int k" by (simp add: abs_mult)
  also have "\<dots> < 2 ^ 53 * 2 powr of_int k"
  proof -
    have "\<bar>of_int m :: real\<bar> < 2 ^ 53" using assms
      by (metis of_int_abs of_int_less_numeral_power_cancel_iff)
    then show ?thesis by (simp add: mult_strict_right_mono)
  qed
  also have "\<dots> = 2 powr (53 + of_int k)"
    by (simp add: powr_add powr_numeral)
  finally have "of_int e < (53 + of_int k :: real)" by simp
  then have le: "e \<le> 52 + k" by linarith
  define j where "j = nat (52 + k - e)"
  have j: "of_int k - (of_int e - 52) = (of_int (int j) :: real)"
    using le by (simp add: j_def)
  have "?x / ulp ?x = of_int m * 2 powr (of_int k - (of_int e - 52))"
    by (simp add: ulp_def e_def[symmetric] powr_diff)
  also have "\<dots> = of_int m * 2 ^ j"
    unfolding j by (simp add: powr_realpow)
  also have "\<dots> = of_int (m * 2 ^ j)" by simp
  finally have q: "?x / ulp ?x = of_int (m * 2 ^ j)" .
  have "round64 ?x = of_int (round_even (?x / ulp ?x)) * ulp ?x"
    using x by (simp add: round64_def)
  also have "\<dots> = (?x / ulp ?x) * ulp ?x"
    unfolding q by (simp only: round_even_of_int)
  also have "\<dots> = ?x" by simp
  finally show ?thesis .
qed

lemma round64_of_int: "\<bar>n\<bar> < 2 ^ 53 \<Longrightarrow> round64 (of_int n) = of_int n"
  using round64_exact[of n 0] by simp

lemma round64_0 [simp]: "round64 0 = 0"
  by (simp add: round64_def)

lemma round64_1 [simp]: "round64 1 = 1"
  using round64_of_int[of 1] by simp

lemma round64_numeral [simp]:
  "numeral w < (2 ^ 53 :: int) \<Longrightarrow> round64 (numeral w) = numeral w"
  using round64_of_int[of "numeral w"] by simp

lemma round64_half [simp]: "round64 (1 / 2) = 1 / 2"
  using round64_exact[of 1 "-1"] by (simp add: powr_minus_divide)


lemma rnd_lo_pos: "0 < rnd_lo" and rnd_hi_pos: "0 < rnd_hi" and rnd_lo_le_1: "rnd_lo \<le> 1" and rnd_hi_ge_1: "1 \<le> rnd_hi"
  by (simp_all add: rnd_lo_def rnd_hi_def)

lemma round64_between:
  assumes "0 \<le> a" and "l * a \<le> x" and "x \<le> h * a" and "0 \<le> l"
  shows "(rnd_lo * l) * a \<le> round64 x \<and> round64 x \<le> (rnd_hi * h) * a"
proof -
  have x0: "0 \<le> x" using assms by (meson mult_nonneg_nonneg order_trans)
  have "\<bar>round64 x - x\<bar> \<le> x / 2 ^ 53" using round64_err[of x] x0 by simp
  then have "round64 x - x \<le> x / 2 ^ 53" "x - round64 x \<le> x / 2 ^ 53"
    by linarith+
  moreover have "rnd_lo * x = x - x / 2 ^ 53" "rnd_hi * x = x + x / 2 ^ 53"
    by (simp_all add: rnd_lo_def rnd_hi_def algebra_simps)
  ultimately have "rnd_lo * x \<le> round64 x" "round64 x \<le> rnd_hi * x"
    by linarith+
  moreover have "rnd_lo * (l * a) \<le> rnd_lo * x" "rnd_hi * x \<le> rnd_hi * (h * a)"
    using assms rnd_lo_pos rnd_hi_pos by (simp_all add: mult_left_mono)
  ultimately show ?thesis by (simp add: mult.assoc)
qed

lemma rounding_factors: "(1 - 1 / 2 ^ 50) * rnd_hi ^ 4 \<le> rnd_lo ^ 3" "rnd_hi ^ 3 \<le> (1 + 1 / 2 ^ 50) * rnd_lo ^ 4"
  by (simp_all add: rnd_lo_def rnd_hi_def power_divide field_simps)


lemma float64_between:
  "0 \<le> n \<Longrightarrow> rnd_lo * real_of_int n \<le> float64 n \<and> float64 n \<le> rnd_hi * real_of_int n"
  using round64_between[of "real_of_int n" 1 "real_of_int n" 1] by (simp add: float64_def)

lemma Seconds_between:
  assumes "0 < d"
  shows "rnd_lo ^ 3 * (real_of_int d / 10 ^ 9) \<le> Seconds d
       \<and> Seconds d \<le> rnd_hi ^ 3 * (real_of_int d / 10 ^ 9)"
proof -
  define sec where "sec = d div 1000000000"
  define nsec where "nsec = d mod 1000000000"
  have q: "quo d 1000000000 = sec" "rem d 1000000000 = nsec"
    using assms by (simp_all add: quo_def rem_def sec_def nsec_def minus_mult_div_eq_mod)
  have nn: "0 \<le> sec" "0 \<le> nsec"
    using assms by (simp_all add: sec_def nsec_def pos_imp_zdiv_nonneg_iff)
  have d: "real_of_int d = real_of_int sec * 10 ^ 9 + real_of_int nsec"
  proof -
    have "d = sec * 1000000000 + nsec" by (simp add: sec_def nsec_def)
    then have "real_of_int d = real_of_int (sec * 1000000000 + nsec)" by simp
    then show ?thesis by simp
  qed
  define s where "s = real_of_int sec + real_of_int nsec / 10 ^ 9"
  have s: "real_of_int d / 10 ^ 9 = s" by (simp add: d s_def field_simps)
  have s1: "rnd_lo * real_of_int sec \<le> float64 sec" "float64 sec \<le> rnd_hi * real_of_int sec"
    using float64_between[OF nn(1)] by simp_all
  have s2: "rnd_lo * real_of_int nsec \<le> float64 nsec" "float64 nsec \<le> rnd_hi * real_of_int nsec"
    using float64_between[OF nn(2)] by simp_all
  have s3: "(rnd_lo * rnd_lo) * (real_of_int nsec / 10 ^ 9) \<le> fquot (float64 nsec) 1000000000"
    "fquot (float64 nsec) 1000000000 \<le> (rnd_hi * rnd_hi) * (real_of_int nsec / 10 ^ 9)"
    unfolding fquot_def
    using round64_between[of "real_of_int nsec / 10 ^ 9" rnd_lo "float64 nsec / 1000000000" rnd_hi]
      s2 nn(2) rnd_lo_pos
    by (simp_all add: divide_right_mono)
  have l2: "rnd_lo * rnd_lo \<le> rnd_lo" "rnd_hi \<le> rnd_hi * rnd_hi"
    using rnd_lo_pos rnd_lo_le_1 rnd_hi_pos rnd_hi_ge_1 by (simp_all add: mult_left_le)
  have sec0: "0 \<le> real_of_int sec" "0 \<le> real_of_int nsec / 10 ^ 9"
    using nn by simp_all
  have low: "(rnd_lo * rnd_lo) * s \<le> float64 sec + fquot (float64 nsec) 1000000000"
  proof -
    have "(rnd_lo * rnd_lo) * real_of_int sec \<le> rnd_lo * real_of_int sec"
      using l2(1) sec0(1) by (rule mult_right_mono)
    with s1(1) s3(1) show ?thesis by (simp add: s_def algebra_simps)
  qed
  have high: "float64 sec + fquot (float64 nsec) 1000000000 \<le> (rnd_hi * rnd_hi) * s"
  proof -
    have "rnd_hi * real_of_int sec \<le> (rnd_hi * rnd_hi) * real_of_int sec"
      using l2(2) sec0(1) by (rule mult_right_mono)
    with s1(2) s3(2) show ?thesis by (simp add: s_def algebra_simps)
  qed
  have s0: "0 \<le> s" using sec0 by (simp add: s_def)
  have "(rnd_lo * (rnd_lo * rnd_lo)) * s \<le> Seconds d \<and> Seconds d \<le> (rnd_hi * (rnd_hi * rnd_hi)) * s"
    unfolding Seconds_def Let_def q fadd_def
    using round64_between[OF s0 low high] rnd_lo_pos by simp
  then show ?thesis
    unfolding s power3_eq_cube by (simp add: mult.assoc)
qed

lemma speed_accuracy:
  assumes "0 \<le> bytes" and "0 < elapsed"
  shows "\<exists>v. speedMbps bytes elapsed = Finite v
     \<and> (1 - 1 / 2 ^ 50) * (bits_per_second bytes elapsed / (1024 * 1024)) \<le> v
     \<and> v \<le> (1 + 1 / 2 ^ 50) * (bits_per_second bytes elapsed / (1024 * 1024))"
proof -
  define b where "b = real_of_int bytes"
  define s where "s = real_of_int elapsed / 10 ^ 9"
  define N where "N = fmul (float64 bytes) 8"
  define D where "D = fmul (1024 * 1024) (Seconds elapsed)"
  define rate where "rate = (b * 8) / (1048576 * s)"
  have b0: "0 \<le> b" and s0: "0 < s"
    using assms by (simp_all add: b_def s_def)
  have rate: "bits_per_second bytes elapsed / (1024 * 1024) = rate"
    by (simp add: bits_per_second_def rate_def b_def s_def)
  have rate0: "0 \<le> rate" using b0 s0 by (simp add: rate_def)
  have B: "rnd_lo * b \<le> float64 bytes" "float64 bytes \<le> rnd_hi * b"
    using float64_between[OF assms(1)] by (simp_all add: b_def)
  have Nb: "(rnd_lo * rnd_lo) * (b * 8) \<le> N \<and> N \<le> (rnd_hi * rnd_hi) * (b * 8)"
    unfolding N_def fmul_def
    using round64_between[of "b * 8" rnd_lo "float64 bytes * 8" rnd_hi] B b0 rnd_lo_pos by simp
  have S: "rnd_lo ^ 3 * s \<le> Seconds elapsed" "Seconds elapsed \<le> rnd_hi ^ 3 * s"
    using Seconds_between[OF assms(2)] by (simp_all add: s_def)
  have Db: "(rnd_lo * rnd_lo ^ 3) * (1048576 * s) \<le> D \<and> D \<le> (rnd_hi * rnd_hi ^ 3) * (1048576 * s)"
    unfolding D_def fmul_def
    using round64_between[of "1048576 * s" "rnd_lo ^ 3" "1024 * 1024 * Seconds elapsed" "rnd_hi ^ 3"]
      S s0 rnd_lo_pos by simp
  have Dlo: "rnd_lo ^ 4 * (1048576 * s) \<le> D" and Dhi: "D \<le> rnd_hi ^ 4 * (1048576 * s)"
    using Db by (simp_all add: power4_eq_xxxx power3_eq_cube mult.assoc)
  have Nlo: "rnd_lo ^ 2 * (b * 8) \<le> N" and Nhi: "N \<le> rnd_hi ^ 2 * (b * 8)"
    using Nb by (simp_all add: power2_eq_square mult.assoc)
  have base: "0 < 1048576 * s" using s0 by simp
  have Dpos: "0 < D"
  proof -
    have "0 < rnd_lo ^ 4 * (1048576 * s)" using rnd_lo_pos base by simp
    with Dlo show ?thesis by linarith
  qed
  have N0: "0 \<le> N"
  proof -
    have "0 \<le> rnd_lo ^ 2 * (b * 8)" using rnd_lo_pos b0 by simp
    with Nlo show ?thesis by linarith
  qed
  have qlo: "(rnd_lo ^ 2 / rnd_hi ^ 4) * rate \<le> N / D"
  proof -
    have "rnd_lo ^ 2 * (b * 8) / (rnd_hi ^ 4 * (1048576 * s)) \<le> N / D"
      using Nlo Dhi Dpos N0 by (intro frac_le) simp_all
    moreover have "(rnd_lo ^ 2 / rnd_hi ^ 4) * rate = rnd_lo ^ 2 * (b * 8) / (rnd_hi ^ 4 * (1048576 * s))"
      unfolding rate_def by (rule times_divide_times_eq)
    ultimately show ?thesis by (simp only:)
  qed
  have qhi: "N / D \<le> (rnd_hi ^ 2 / rnd_lo ^ 4) * rate"
  proof -
    have "0 < rnd_lo ^ 4 * (1048576 * s)" using rnd_lo_pos base by simp
    moreover have "0 \<le> rnd_hi ^ 2 * (b * 8)" using rnd_hi_pos b0 by simp
    ultimately have "N / D \<le> rnd_hi ^ 2 * (b * 8) / (rnd_lo ^ 4 * (1048576 * s))"
      using Nhi Dlo by (intro frac_le) simp_all
    moreover have "(rnd_hi ^ 2 / rnd_lo ^ 4) * rate = rnd_hi ^ 2 * (b * 8) / (rnd_lo ^ 4 * (1048576 * s))"
      unfolding rate_def by (rule times_divide_times_eq)
    ultimately show ?thesis by (simp only:)
  qed
  have l0: "0 \<le> rnd_lo ^ 2 / rnd_hi ^ 4" using rnd_lo_pos rnd_hi_pos by simp
  have Q: "(rnd_lo * (rnd_lo ^ 2 / rnd_hi ^ 4)) * rate \<le> fquot N D \<and> fquot N D \<le> (rnd_hi * (rnd_hi ^ 2 / rnd_lo ^ 4)) * rate"
    unfolding fquot_def using round64_between[OF rate0 qlo qhi l0] .
  have n1: "1 - 1 / 2 ^ 50 \<le> rnd_lo * (rnd_lo ^ 2 / rnd_hi ^ 4)"
  proof -
    have "(1 - 1 / 2 ^ 50) * rnd_hi ^ 4 \<le> rnd_lo ^ 3" by (rule rounding_factors)
    then have "1 - 1 / 2 ^ 50 \<le> rnd_lo ^ 3 / rnd_hi ^ 4"
      using rnd_hi_pos by (simp add: pos_le_divide_eq)
    then show ?thesis by (simp add: power3_eq_cube power2_eq_square)
  qed
  have n2: "rnd_hi * (rnd_hi ^ 2 / rnd_lo ^ 4) \<le> 1 + 1 / 2 ^ 50"
  proof -
    have "rnd_hi ^ 3 \<le> (1 + 1 / 2 ^ 50) * rnd_lo ^ 4" by (rule rounding_factors)
    then have "rnd_hi ^ 3 / rnd_lo ^ 4 \<le> 1 + 1 / 2 ^ 50"
      using rnd_lo_pos by (simp add: pos_divide_le_eq)
    then show ?thesis by (simp add: power3_eq_cube power2_eq_square)
  qed
  have "(1 - 1 / 2 ^ 50) * rate \<le> fquot N D"
    using Q mult_right_mono[OF n1 rate0] by linarith
  moreover have "fquot N D \<le> (1 + 1 / 2 ^ 50) * rate"
    using Q mult_right_mono[OF n2 rate0] by linarith
  moreover have "speedMbps bytes elapsed = Finite (fquot N D)"
    using Dpos by (simp add: speedMbps_def fdiv_def N_def D_def)
  ultimately show ?thesis
    unfolding rate by blast
qed

section \<open>The reader and the fetch\<close>

lemma count_fields [simp]:
  "checkTime (count r ev) = checkTime r" "minSpeed (count r ev) = minSpeed r"
  by (simp_all add: count_def)

lemma Read_unfold:
  "Read r ev st =
     (case readCtx ev of
        Some err \<Rightarrow> (r, [], Some (CtxErr err))
      | None \<Rightarrow> (count r ev, chunk ev, if trips r ev then Some ErrTooSlow else st))"
  by (simp add: Read_def trips_def count_def Let_def split: option.splits)

lemma reader_Read_final:
  "reader_Read rd ev (Some e) = (rd', data, err) \<Longrightarrow> err \<noteq> None"
  by (cases rd) (auto simp: Read_unfold split: option.splits if_splits)

lemma loop_exit_TooSlow [simp]: "loop_exit e buf = Inl ErrTooSlow \<longleftrightarrow> e = ErrTooSlow"
  by (auto simp: loop_exit_def)

lemma file_status_not_TooSlow [simp]:
  "file_status fe \<noteq> ErrTooSlow" "ErrTooSlow \<noteq> file_status fe"
  by (cases fe; simp)+

lemma steady_no_TooSlow:
  "steady r src \<Longrightarrow> doRead_loop (Some r) buf src \<noteq> Inl ErrTooSlow"
  by (induction src arbitrary: r buf) (auto simp: Read_unfold split: option.splits)

lemma unguarded_no_TooSlow: "doRead_loop None buf src \<noteq> Inl ErrTooSlow"
  by (induction src arbitrary: buf) (auto split: option.splits)

lemma steady_read_calls:
  "steady r src \<Longrightarrow> (data, Some ErrTooSlow) \<notin> set (read_calls r src)"
  by (induction src arbitrary: r) (auto simp: Read_unfold split: option.splits)

lemma early_steady:
  "\<forall>t \<in> set (readings src). t < checkTime r \<Longrightarrow> steady r src"
  by (induction src arbitrary: r) (auto simp: trips_def)

lemma readings_ne [simp]: "readings src \<noteq> []"
  by (cases src) simp_all

lemma end_reading_last: "end_reading src = last (readings src)"
  by (induction src) (auto)

lemma sorted_before_end:
  assumes "sorted (readings src)" and "t \<in> set (readings src)"
  shows "t \<le> end_reading src"
proof -
  obtain i where i: "i < length (readings src)" "readings src ! i = t"
    using assms(2) by (auto simp: in_set_conv_nth)
  have "readings src ! i \<le> readings src ! (length (readings src) - 1)"
    using assms(1) i(1) by (intro sorted_nth_mono) auto
  then show ?thesis
    using i(2) by (simp add: end_reading_last last_conv_nth)
qed

lemma doRead_world:
  "fst (doRead h env w b) = w\<lparr>opens := Suc (opens w), trace := trace w @ [EvOpen b]\<rparr>"
  by (simp add: doRead_def Let_def split: attempt.splits)

lemma doRead_result:
  "snd (doRead h env w b) =
     (case env (opens w) of
        OpenFails err \<Rightarrow> Inl (OsErr err)
      | Opens src \<Rightarrow>
          doRead_loop (if b then Some (NewHedgingReader (h_checkTime h) (h_minSpeed h)) else None)
            [] src)"
  by (simp add: doRead_def Let_def split: attempt.splits)

lemma doRead_unguarded_no_TooSlow: "snd (doRead h env w False) \<noteq> Inl ErrTooSlow"
  by (simp add: doRead_result unguarded_no_TooSlow split: attempt.splits)

lemma readHedged_hedge:
  assumes "snd (doRead h env w True) = Inl ErrTooSlow"
  shows "readHedged h env w =
     doRead h env
       (w\<lparr>opens := Suc (opens w), trace := trace w @ [EvOpen True, EvSleep (hedgedDelay h)]\<rparr>)
       False"
proof -
  have "doRead h env w True =
      (w\<lparr>opens := Suc (opens w), trace := trace w @ [EvOpen True]\<rparr>, Inl ErrTooSlow)"
    using assms doRead_world[of h env w True] by (metis prod.collapse)
  then show ?thesis by (simp add: readHedged_def)
qed

lemma readHedged_single:
  assumes "snd (doRead h env w True) \<noteq> Inl ErrTooSlow"
  shows "readHedged h env w = doRead h env w True"
proof (cases "doRead h env w True")
  case (Pair w1 res)
  with assms show ?thesis by (cases res) (auto simp: readHedged_def)
qed

lemma all_early:
  assumes "sorted (readings src)" and "end_reading src < checkTime r"
  shows "\<forall>t \<in> set (readings src). t < checkTime r"
  using sorted_before_end[OF assms(1)] assms(2) by fastforce

lemma Read_trips:
  "readCtx ev = None \<Longrightarrow> trips r ev \<Longrightarrow> Read r ev st = (count r ev, chunk ev, Some ErrTooSlow)"
  by (simp add: Read_unfold)

lemma count_bytes: "bytesRead (count r ev) = bytesRead r + int (length (chunk ev))"
  by (simp add: count_def)

lemma trips_under_margin:
  assumes "checkTime r \<le> since ev" and "0 < since ev"
    and "0 \<le> bytesRead r + int (length (chunk ev))"
    and "(1 + 1 / 2 ^ 50)
           * (bits_per_second (bytesRead r + int (length (chunk ev))) (since ev) / (1024 * 1024))
         < minSpeed r"
  shows "trips r ev"
proof -
  obtain v where v: "speedMbps (bytesRead r + int (length (chunk ev))) (since ev) = Finite v"
    "v \<le> (1 + 1 / 2 ^ 50)
           * (bits_per_second (bytesRead r + int (length (chunk ev))) (since ev) / (1024 * 1024))"
    using speed_accuracy[OF assms(3) assms(2)] by blast
  then have "v < minSpeed r" using assms(4) by linarith
  then show ?thesis
    using assms(1) v(1) by (simp add: trips_def count_bytes)
qed

lemma passes_over_margin:
  assumes "0 < since ev" and "0 \<le> bytesRead r + int (length (chunk ev))"
    and "minSpeed r
         \<le> (1 - 1 / 2 ^ 50)
           * (bits_per_second (bytesRead r + int (length (chunk ev))) (since ev) / (1024 * 1024))"
  shows "\<not> trips r ev"
proof -
  obtain v where v: "speedMbps (bytesRead r + int (length (chunk ev))) (since ev) = Finite v"
    "(1 - 1 / 2 ^ 50)
           * (bits_per_second (bytesRead r + int (length (chunk ev))) (since ev) / (1024 * 1024))
     \<le> v"
    using speed_accuracy[OF assms(2) assms(1)] by blast
  then have "\<not> v < minSpeed r" using assms(3) by linarith
  then show ?thesis
    using v(1) by (simp add: trips_def count_bytes)
qed

lemma Read_passes:
  "readCtx ev = None \<Longrightarrow> \<not> trips r ev \<Longrightarrow> Read r ev st = (count r ev, chunk ev, st)"
  by (simp add: Read_unfold)

lemma not_steady_TooSlow:
  "live src \<Longrightarrow> \<not> steady r src \<Longrightarrow> doRead_loop (Some r) buf src = Inl ErrTooSlow"
  by (induction src arbitrary: r buf) (auto simp: Read_unfold loop_exit_def)

lemma trips_at_end_guarded:
  "live src \<Longrightarrow> trips_at_end r src \<Longrightarrow> doRead_loop (Some r) buf src = Inl ErrTooSlow"
  by (induction src arbitrary: r buf) (auto simp: Read_unfold loop_exit_def)

lemma live_unguarded:
  "live src \<Longrightarrow>
     doRead_loop None buf src = loop_exit (file_status (ending src)) (buf @ contents src)"
  by (induction src arbitrary: buf) auto

section \<open>Evaluation of concrete inputs\<close>

lemmas eval_read = Read_def speedMbps_def Seconds_def fdiv_def fquot_def fmul_def fadd_def
  float64_def quo_def rem_def NewHedgingReader_def loop_exit_def quiet_read_def Let_def

lemmas eval_cache = run_ops_def NewMemoryCache_def Set_def Get_def MoveToFront_def Let_def
  evict.simps abc_def abc_get_d_def

lemmas eval_fetch = flight_def readHedged_def doRead_def default_handler_def start_world_def
  stall_then_small_def missing_def

text \<open>The scenario of least-recently-used eviction, state by state.\<close>

lemma lru_scenario:
  assumes "distinct [kA, kB, kC, kD]" "0 < s" "length dA = s" "length dB = s" "length dC = s"
      "length dD = s"
  shows 
    "ll (abc (3 * int s) kA dA kB dB kC dC) = [2, 1, 0]
     \<and> snd (Get (abc (3 * int s) kA dA kB dB kC dC) kA) = Some dA
     \<and> ll (fst (Get (abc (3 * int s) kA dA kB dB kC dC) kA)) = [0, 2, 1]
     \<and> ll (abc_get_d (3 * int s) kA dA kB dB kC dC kD dD) = [3, 0, 2]
     \<and> cache (abc_get_d (3 * int s) kA dA kB dB kC dC kD dD) kB = None
     \<and> cache (abc_get_d (3 * int s) kA dA kB dB kC dC kD dD) kA = Some 0
     \<and> Data (Value (abc_get_d (3 * int s) kA dA kB dB kC dC kD dD) 0) = dA
     \<and> ll (abc (2 * int s) kA dA kB dB kC dC) = [2, 1]
     \<and> cache (abc (2 * int s) kA dA kB dB kC dC) kA = None
     \<and> Get (abc (2 * int s) kA dA kB dB kC dC) kA = (abc (2 * int s) kA dA kB dB kC dC, None)
     \<and> ll (abc_get_d (2 * int s) kA dA kB dB kC dC kD dD) = [3, 2]
     \<and> cache (abc_get_d (2 * int s) kA dA kB dB kC dC kD dD) kA = None
     \<and> cache (abc_get_d (2 * int s) kA dA kB dB kC dC kD dD) kB = None
     \<and> cache (abc_get_d (2 * int s) kA dA kB dB kC dC kD dD) kC = Some 2
     \<and> cache (abc_get_d (2 * int s) kA dA kB dB kC dC kD dD) kD = Some 3"
proof -
  have ne: "kA \<noteq> kB" "kA \<noteq> kC" "kA \<noteq> kD" "kB \<noteq> kC" "kB \<noteq> kD" "kC \<noteq> kD"
    "kB \<noteq> kA" "kC \<noteq> kA" "kD \<noteq> kA" "kC \<noteq> kB" "kD \<noteq> kB" "kD \<noteq> kC"
    using assms(1) by auto
  note sz = assms(2-6)
  have abc3: "abc (3 * int s) kA dA kB dB kC dC =
      \<lparr>maxBytes = 3 * int s, usedBytes = 3 * int s, ll = [2, 1, 0],
       Value = (\<lambda>_. \<lparr>Key = [], Data = []\<rparr>)
                 (0 := \<lparr>Key = kA, Data = dA\<rparr>, 1 := \<lparr>Key = kB, Data = dB\<rparr>,
                  2 := \<lparr>Key = kC, Data = dC\<rparr>),
       cache = [kA \<mapsto> 0, kB \<mapsto> 1, kC \<mapsto> 2], allocated = 3\<rparr>"
    using ne sz by (simp add: eval_cache numeral_2_eq_2 numeral_3_eq_3)
  have abcd3: "abc_get_d (3 * int s) kA dA kB dB kC dC kD dD =
      \<lparr>maxBytes = 3 * int s, usedBytes = 3 * int s, ll = [3, 0, 2],
       Value = (\<lambda>_. \<lparr>Key = [], Data = []\<rparr>)
                 (0 := \<lparr>Key = kA, Data = dA\<rparr>, 1 := \<lparr>Key = kB, Data = dB\<rparr>,
                  2 := \<lparr>Key = kC, Data = dC\<rparr>, 3 := \<lparr>Key = kD, Data = dD\<rparr>),
       cache = [kA \<mapsto> 0, kC \<mapsto> 2, kD \<mapsto> 3], allocated = 4\<rparr>"
    unfolding abc_get_d_def abc3 using ne sz
    by (simp add: Set_def Get_def MoveToFront_def Let_def evict.simps fun_upd_twist)
  have abc2: "abc (2 * int s) kA dA kB dB kC dC =
      \<lparr>maxBytes = 2 * int s, usedBytes = 2 * int s, ll = [2, 1],
       Value = (\<lambda>_. \<lparr>Key = [], Data = []\<rparr>)
                 (0 := \<lparr>Key = kA, Data = dA\<rparr>, 1 := \<lparr>Key = kB, Data = dB\<rparr>,
                  2 := \<lparr>Key = kC, Data = dC\<rparr>),
       cache = [kB \<mapsto> 1, kC \<mapsto> 2], allocated = 3\<rparr>"
    using ne sz by (simp add: eval_cache numeral_2_eq_2 numeral_3_eq_3 fun_upd_twist)
  have abcd2: "abc_get_d (2 * int s) kA dA kB dB kC dC kD dD =
      \<lparr>maxBytes = 2 * int s, usedBytes = 2 * int s, ll = [3, 2],
       Value = (\<lambda>_. \<lparr>Key = [], Data = []\<rparr>)
                 (0 := \<lparr>Key = kA, Data = dA\<rparr>, 1 := \<lparr>Key = kB, Data = dB\<rparr>,
                  2 := \<lparr>Key = kC, Data = dC\<rparr>, 3 := \<lparr>Key = kD, Data = dD\<rparr>),
       cache = [kC \<mapsto> 2, kD \<mapsto> 3], allocated = 4\<rparr>"
    unfolding abc_get_d_def abc2 using ne sz
    by (simp add: Set_def Get_def MoveToFront_def Let_def evict.simps fun_upd_twist)
  show ?thesis
    unfolding abcd3 abcd2 unfolding abc3 abc2 using ne
    by (simp add: Get_def MoveToFront_def)
qed


section \<open>The claims\<close>

subsection \<open>Request coalescing and cancellation\<close>

text \<open>
  C1. The claim: the coalesced fetch is detached from the cancellation of the caller that
  started it; when that caller's context is cancelled before the fetch completes, the
  fetch still completes and later waiters of the key receive the payload.

  The code runs the fetch under the context of the first caller's request. On the small
  file, read under a context that is cancelled after the first read, the flight ends with
  \<^verbatim>\<open>context.Canceled\<close>; every caller of the flight receives that error and answers with
  status 500, and nothing is stored in the cache. Read under a context that is never
  cancelled, the same file yields its three bytes.
\<close>

theorem initiator_cancel_fails_flight:
  "flight default_handler (\<lambda>i. Opens dropped_file) = Inl (CtxErr Canceled)
   \<and> respond (NewMemoryCache 1073741824) ''./data/seg1.m4s''
        (flight default_handler (\<lambda>i. Opens dropped_file))
      = (NewMemoryCache 1073741824, InternalServerError)
   \<and> flight default_handler (\<lambda>i. Opens small_file) = Inr [1, 2, 3]"
  by (simp add: eval_fetch respond_def dropped_file_def small_file_def eval_read)

subsection \<open>Throughput-gated reader\<close>

text \<open>
  C2, as amended. A guarded session never ends with the too-slow error, and none of its
  read calls returns it, as long as at every read call past the measurement window the
  speed computed from the bytes read so far and the whole time elapsed since the session
  began is not below the minimum. The check recurs on every read call past the window
  and judges that average over the whole elapsed time: a session under a live context
  ends with the too-slow error as soon as one read call fails the check, whatever was
  delivered before. In numbers: a read call under a live context, past the window, at
  which the cumulative bytes times eight over the seconds elapsed, in Mbps, are below the
  minimum by more than the float64 rounding (a factor \<open>1 + 2^-50\<close>), returns the
  too-slow error; one at which they reach the minimum by that margin returns the status
  of the underlying read.
\<close>

theorem average_decides:
  "(steady r src \<longrightarrow>
      doRead_loop (Some r) buf src \<noteq> Inl ErrTooSlow
      \<and> (\<forall>call \<in> set (read_calls r src). snd call \<noteq> Some ErrTooSlow))
   \<and> (live src \<and> \<not> steady r src \<longrightarrow> doRead_loop (Some r) buf src = Inl ErrTooSlow)
   \<and> (readCtx ev = None \<and> checkTime r \<le> since ev \<and> 0 < since ev
        \<and> 0 \<le> bytesRead r + int (length (chunk ev))
        \<and> (1 + 1 / 2 ^ 50)
             * (bits_per_second (bytesRead r + int (length (chunk ev))) (since ev) / (1024 * 1024))
            < minSpeed r \<longrightarrow>
      Read r ev st = (count r ev, chunk ev, Some ErrTooSlow))
   \<and> (readCtx ev = None \<and> 0 < since ev
        \<and> 0 \<le> bytesRead r + int (length (chunk ev))
        \<and> minSpeed r
            \<le> (1 - 1 / 2 ^ 50)
               * (bits_per_second (bytesRead r + int (length (chunk ev))) (since ev) / (1024 * 1024)) \<longrightarrow>
      Read r ev st = (count r ev, chunk ev, st))"
proof -
  have first: "steady r src \<longrightarrow>
      doRead_loop (Some r) buf src \<noteq> Inl ErrTooSlow
      \<and> (\<forall>call \<in> set (read_calls r src). snd call \<noteq> Some ErrTooSlow)"
    using steady_no_TooSlow[of r src buf] steady_read_calls[of r src] by auto
  have second: "live src \<and> \<not> steady r src \<longrightarrow> doRead_loop (Some r) buf src = Inl ErrTooSlow"
    using not_steady_TooSlow[of src r buf] by blast
  have third: "readCtx ev = None \<and> checkTime r \<le> since ev \<and> 0 < since ev
        \<and> 0 \<le> bytesRead r + int (length (chunk ev))
        \<and> (1 + 1 / 2 ^ 50)
             * (bits_per_second (bytesRead r + int (length (chunk ev))) (since ev) / (1024 * 1024))
            < minSpeed r \<longrightarrow>
      Read r ev st = (count r ev, chunk ev, Some ErrTooSlow)"
    using trips_under_margin[of r ev] Read_trips[of ev r st] by blast
  have fourth: "readCtx ev = None \<and> 0 < since ev
        \<and> 0 \<le> bytesRead r + int (length (chunk ev))
        \<and> minSpeed r
            \<le> (1 - 1 / 2 ^ 50)
               * (bits_per_second (bytesRead r + int (length (chunk ev))) (since ev) / (1024 * 1024)) \<longrightarrow>
      Read r ev st = (count r ev, chunk ev, st)"
    using passes_over_margin[of ev r] Read_passes[of ev r st] by blast
  show ?thesis
    by (rule conjI[OF first conjI[OF second conjI[OF third fourth]]])
qed

text \<open>
  An instance of C2: the brisk file is steady for the default reader and is read without
  the too-slow error; the stalled file is not steady and its session ends with the
  too-slow error; a reader that holds one MiB returns the too-slow error when it sees no
  further byte until sixteen seconds have passed (0.5 Mbps), and the status of the
  underlying read when the window of one second closes (8 Mbps).
\<close>

theorem average_decides_witness:
  "steady (NewHedgingReader 1000000000 5) brisk_file
   \<and> doRead_loop (Some (NewHedgingReader 1000000000 5)) [] brisk_file \<noteq> Inl ErrTooSlow
   \<and> live stalled_file
   \<and> \<not> steady (NewHedgingReader 1000000000 5) stalled_file
   \<and> doRead_loop (Some (NewHedgingReader 1000000000 5)) [] stalled_file = Inl ErrTooSlow
   \<and> readCtx (quiet_read [] 16000000000) = None
   \<and> bits_per_second 1048576 16000000000 / (1024 * 1024) = 1 / 2
   \<and> Read (NewHedgingReader 1000000000 5\<lparr>bytesRead := 1048576\<rparr>) (quiet_read [] 16000000000) None
       = (NewHedgingReader 1000000000 5\<lparr>bytesRead := 1048576\<rparr>, [], Some ErrTooSlow)
   \<and> bits_per_second 1048576 1000000000 / (1024 * 1024) = 8
   \<and> Read (NewHedgingReader 1000000000 5\<lparr>bytesRead := 1048576\<rparr>) (quiet_read [] 1000000000) None
       = (NewHedgingReader 1000000000 5\<lparr>bytesRead := 1048576\<rparr>, [], None)"
proof -
  let ?r = "NewHedgingReader 1000000000 5"
  let ?r1 = "?r\<lparr>bytesRead := 1048576\<rparr>"
  let ?late = "quiet_read [] 16000000000"
  let ?early = "quiet_read [] 1000000000"
  have st: "steady ?r brisk_file"
    by (simp add: brisk_file_def trips_def count_def eval_read)
  have lv: "live stalled_file" and ns: "\<not> steady ?r stalled_file"
    by (simp_all add: stalled_file_def trips_def count_def eval_read)
  have rates: "bits_per_second 1048576 16000000000 / (1024 * 1024) = 1 / 2"
    "bits_per_second 1048576 1000000000 / (1024 * 1024) = 8"
    by (simp_all add: bits_per_second_def)
  have late: "readCtx ?late = None \<and> checkTime ?r1 \<le> since ?late \<and> 0 < since ?late
      \<and> 0 \<le> bytesRead ?r1 + int (length (chunk ?late))
      \<and> (1 + 1 / 2 ^ 50)
           * (bits_per_second (bytesRead ?r1 + int (length (chunk ?late))) (since ?late)
              / (1024 * 1024))
          < minSpeed ?r1"
    by (simp add: NewHedgingReader_def quiet_read_def bits_per_second_def)
  have early: "readCtx ?early = None \<and> 0 < since ?early
      \<and> 0 \<le> bytesRead ?r1 + int (length (chunk ?early))
      \<and> minSpeed ?r1
          \<le> (1 - 1 / 2 ^ 50)
             * (bits_per_second (bytesRead ?r1 + int (length (chunk ?early))) (since ?early)
                / (1024 * 1024))"
    by (simp add: NewHedgingReader_def quiet_read_def bits_per_second_def)
  have cnt: "count ?r1 ?late = ?r1" "chunk ?late = []" "count ?r1 ?early = ?r1" "chunk ?early = []"
    by (simp_all add: count_def quiet_read_def)
  note A = average_decides[of ?r brisk_file "[]" ?late None]
  note B = average_decides[of ?r stalled_file "[]" ?late None]
  note C = average_decides[of ?r1 stalled_file "[]" ?late None]
  note D = average_decides[of ?r1 stalled_file "[]" ?early None]
  have a: "doRead_loop (Some ?r) [] brisk_file \<noteq> Inl ErrTooSlow"
    using A st by blast
  have b: "doRead_loop (Some ?r) [] stalled_file = Inl ErrTooSlow"
    using B lv ns by blast
  have c: "Read ?r1 ?late None = (count ?r1 ?late, chunk ?late, Some ErrTooSlow)"
    using C late by blast
  have d: "Read ?r1 ?early None = (count ?r1 ?early, chunk ?early, None)"
    using D early by blast
  have rc: "readCtx ?late = None" by (simp add: quiet_read_def)
  from st a lv ns b rc rates c[unfolded cnt] d[unfolded cnt] show ?thesis
    by (intro conjI)
qed

text \<open>
  C2 as stated fails. The stalled file delivers its MiB by the time the window of one
  second closes; the check at that read finds 8 Mbps, above the minimum of 5 Mbps, and
  passes. The end of data is seen after sixteen seconds: the check recurs, finds 0.5 Mbps
  over the sixteen seconds, and the session ends with the too-slow error.
\<close>

theorem fast_start_still_trips:
  "speedMbps 1048576 1000000000 = Finite 8
   \<and> speedMbps 1048576 16000000000 = Finite (1 / 2)
   \<and> read_calls (NewHedgingReader 1000000000 5) stalled_file
       = [(replicate 1048576 0, None), ([], Some ErrTooSlow)]
   \<and> doRead_loop (Some (NewHedgingReader 1000000000 5)) [] stalled_file = Inl ErrTooSlow"
  by (simp add: stalled_file_def eval_read)




text \<open>
  C9. When the clock readings of a session never decrease and the read that ends the
  source happens before the measurement window has elapsed, no read call of the guarded
  session returns the too-slow error, and the session does not end with it.
\<close>

theorem short_source_never_TooSlow:
  "sorted (readings src) \<Longrightarrow> end_reading src < checkTime r \<Longrightarrow>
     (\<forall>call \<in> set (read_calls r src). snd call \<noteq> Some ErrTooSlow)
     \<and> doRead_loop (Some r) buf src \<noteq> Inl ErrTooSlow"
proof -
  assume "sorted (readings src)" and "end_reading src < checkTime r"
  then have "steady r src" by (intro early_steady all_early)
  then show ?thesis
    using steady_no_TooSlow[of r src buf] steady_read_calls[of r src] by auto
qed

text \<open>An instance of C9: the small file, read within two microseconds.\<close>

theorem short_source_never_TooSlow_witness:
  "sorted (readings small_file)
   \<and> end_reading small_file < checkTime (NewHedgingReader 1000000000 5)
   \<and> read_calls (NewHedgingReader 1000000000 5) small_file = [([1, 2, 3], None), ([], Some EOF)]
   \<and> doRead_loop (Some (NewHedgingReader 1000000000 5)) [] small_file \<noteq> Inl ErrTooSlow"
proof -
  have h1: "sorted (readings small_file)"
    and h2: "end_reading small_file < checkTime (NewHedgingReader 1000000000 5)"
    by (simp_all add: small_file_def eval_read)
  have calls: "read_calls (NewHedgingReader 1000000000 5) small_file
      = [([1, 2, 3], None), ([], Some EOF)]"
    by (simp add: small_file_def eval_read)
  from short_source_never_TooSlow[OF h1 h2, of "[]"] h1 h2 calls show ?thesis
    by simp
qed

text \<open>
  C10. Past the window and below the minimum, a read call under a live context returns
  the too-slow error whatever the underlying read reported, the end of data and an I/O
  error included. A guarded session over a source whose last read is the first to fail
  the check ends with the too-slow error, where the unguarded read of the same source
  ends with the outcome of the file: its bytes at the end of data, its error otherwise.
  The orchestrator then does not return after the first attempt: it sleeps and makes the
  second, unguarded attempt.
\<close>

theorem TooSlow_replaces_status:
  "(readCtx ev = None \<and> trips r ev \<longrightarrow>
      Read r ev st = (count r ev, chunk ev, Some ErrTooSlow))
   \<and> (live src \<and> trips_at_end r src \<longrightarrow>
      doRead_loop (Some r) buf src = Inl ErrTooSlow
      \<and> doRead_loop None buf src = loop_exit (file_status (ending src)) (buf @ contents src))
   \<and> (live src \<and> trips_at_end (NewHedgingReader (h_checkTime h) (h_minSpeed h)) src
        \<and> env (opens w) = Opens src \<longrightarrow>
      readHedged h env w =
        doRead h env
          (w\<lparr>opens := Suc (opens w),
             trace := trace w @ [EvOpen True, EvSleep (hedgedDelay h)]\<rparr>)
          False)"
proof -
  have "snd (doRead h env w True) = Inl ErrTooSlow"
    if "live src" "trips_at_end (NewHedgingReader (h_checkTime h) (h_minSpeed h)) src"
      "env (opens w) = Opens src"
    using that by (simp add: doRead_result trips_at_end_guarded)
  then show ?thesis
    using Read_trips[of ev r st] trips_at_end_guarded[of src r buf] live_unguarded[of src buf]
      readHedged_hedge[of h env w]
    by blast
qed

text \<open>
  An instance of C10: the stalled file is complete at its last read, which reports the
  end of data; the guarded session returns the too-slow error, and the fetch goes on to
  the second attempt.
\<close>

theorem TooSlow_replaces_status_witness:
  "live stalled_file
   \<and> trips_at_end (NewHedgingReader 1000000000 5) stalled_file
   \<and> ending stalled_file = AtEOF
   \<and> doRead_loop (Some (NewHedgingReader 1000000000 5)) [] stalled_file = Inl ErrTooSlow
   \<and> doRead_loop None [] stalled_file = Inr (replicate 1048576 0)
   \<and> stall_then_small (opens start_world) = Opens stalled_file
   \<and> readHedged default_handler stall_then_small start_world
       = doRead default_handler stall_then_small
           (start_world\<lparr>opens := Suc (opens start_world),
              trace := trace start_world @ [EvOpen True, EvSleep (hedgedDelay default_handler)]\<rparr>)
           False
   \<and> readCtx (quiet_read [] 16000000000) = None
   \<and> trips (NewHedgingReader 1000000000 5\<lparr>bytesRead := 1048576\<rparr>) (quiet_read [] 16000000000)
   \<and> Read (NewHedgingReader 1000000000 5\<lparr>bytesRead := 1048576\<rparr>) (quiet_read [] 16000000000)
        (Some (OsErr ErrIO))
       = (NewHedgingReader 1000000000 5\<lparr>bytesRead := 1048576\<rparr>, [], Some ErrTooSlow)"
proof -
  let ?r = "NewHedgingReader 1000000000 5"
  let ?r1 = "?r\<lparr>bytesRead := 1048576\<rparr>"
  let ?ev = "quiet_read [] 16000000000"
  have lv: "live stalled_file" and te: "trips_at_end ?r stalled_file"
    and en: "ending stalled_file = AtEOF" "contents stalled_file = replicate 1048576 0"
    by (simp_all add: stalled_file_def trips_def count_def eval_read)
  have te': "trips_at_end (NewHedgingReader (h_checkTime default_handler) (h_minSpeed default_handler))
      stalled_file"
    using te by (simp add: default_handler_def)
  have op: "stall_then_small (opens start_world) = Opens stalled_file"
    by (simp add: stall_then_small_def start_world_def)
  have rc: "readCtx ?ev = None" and tr: "trips ?r1 ?ev" and cnt: "count ?r1 ?ev = ?r1" "chunk ?ev = []"
    by (simp_all add: trips_def count_def eval_read)
  from TooSlow_replaces_status[of ?ev ?r1 "Some (OsErr ErrIO)" stalled_file "[]"]
       TooSlow_replaces_status[of ?ev ?r "Some (OsErr ErrIO)" stalled_file "[]" default_handler
         stall_then_small start_world]
       lv te te' en op rc tr cnt
  show ?thesis
    by (simp add: loop_exit_def)
qed

subsection \<open>Hedged fetch\<close>



text \<open>
  C4. The result of a fetch is never the too-slow error. When the guarded attempt ends
  with it, the orchestrator consumes it and turns it into the one hedge retry: it sleeps
  for the hedge delay, opens the source a second time and reads it without the speed
  check, and the outcome of that second attempt, bytes or error, is the result of the
  fetch. Every other outcome of the guarded attempt is the result of the fetch as it is.
  In particular, when the source cannot be opened on the guarded attempt, the fetch
  returns that error after this one open, with no sleep and no second attempt.
\<close>

theorem TooSlow_absorbed:
  "snd (readHedged h env w) \<noteq> Inl ErrTooSlow
   \<and> (snd (doRead h env w True) = Inl ErrTooSlow \<longrightarrow>
        readHedged h env w =
          doRead h env
            (w\<lparr>opens := Suc (opens w),
               trace := trace w @ [EvOpen True, EvSleep (hedgedDelay h)]\<rparr>)
            False
        \<and> fst (readHedged h env w) =
            w\<lparr>opens := Suc (Suc (opens w)),
              trace := trace w @ [EvOpen True, EvSleep (hedgedDelay h), EvOpen False]\<rparr>
        \<and> snd (readHedged h env w) =
            (case env (Suc (opens w)) of
               OpenFails err \<Rightarrow> Inl (OsErr err)
             | Opens src \<Rightarrow> doRead_loop None [] src))
   \<and> (snd (doRead h env w True) \<noteq> Inl ErrTooSlow \<longrightarrow>
        readHedged h env w = doRead h env w True)
   \<and> (env (opens w) = OpenFails err \<longrightarrow>
        readHedged h env w =
          (w\<lparr>opens := Suc (opens w), trace := trace w @ [EvOpen True]\<rparr>, Inl (OsErr err)))"
proof -
  have never: "snd (readHedged h env w) \<noteq> Inl ErrTooSlow"
  proof (cases "snd (doRead h env w True) = Inl ErrTooSlow")
    case True
    then show ?thesis
      by (simp add: readHedged_hedge doRead_unguarded_no_TooSlow)
  next
    case False
    then show ?thesis by (simp add: readHedged_single)
  qed
  have hedge: "snd (doRead h env w True) = Inl ErrTooSlow \<longrightarrow>
        readHedged h env w =
          doRead h env
            (w\<lparr>opens := Suc (opens w),
               trace := trace w @ [EvOpen True, EvSleep (hedgedDelay h)]\<rparr>)
            False
        \<and> fst (readHedged h env w) =
            w\<lparr>opens := Suc (Suc (opens w)),
              trace := trace w @ [EvOpen True, EvSleep (hedgedDelay h), EvOpen False]\<rparr>
        \<and> snd (readHedged h env w) =
            (case env (Suc (opens w)) of
               OpenFails err \<Rightarrow> Inl (OsErr err)
             | Opens src \<Rightarrow> doRead_loop None [] src)"
  proof
    assume slow: "snd (doRead h env w True) = Inl ErrTooSlow"
    define w1 where
      "w1 = w\<lparr>opens := Suc (opens w), trace := trace w @ [EvOpen True, EvSleep (hedgedDelay h)]\<rparr>"
    have eq: "readHedged h env w = doRead h env w1 False"
      using readHedged_hedge[OF slow] by (simp add: w1_def)
    have "fst (doRead h env w1 False) =
        w\<lparr>opens := Suc (Suc (opens w)),
          trace := trace w @ [EvOpen True, EvSleep (hedgedDelay h), EvOpen False]\<rparr>"
      by (simp add: doRead_world w1_def)
    moreover have "snd (doRead h env w1 False) =
        (case env (Suc (opens w)) of
           OpenFails err \<Rightarrow> Inl (OsErr err)
         | Opens src \<Rightarrow> doRead_loop None [] src)"
      by (simp add: doRead_result w1_def)
    ultimately show "readHedged h env w =
          doRead h env
            (w\<lparr>opens := Suc (opens w),
               trace := trace w @ [EvOpen True, EvSleep (hedgedDelay h)]\<rparr>)
            False
        \<and> fst (readHedged h env w) =
            w\<lparr>opens := Suc (Suc (opens w)),
              trace := trace w @ [EvOpen True, EvSleep (hedgedDelay h), EvOpen False]\<rparr>
        \<and> snd (readHedged h env w) =
            (case env (Suc (opens w)) of
               OpenFails err \<Rightarrow> Inl (OsErr err)
             | Opens src \<Rightarrow> doRead_loop None [] src)"
      unfolding eq by (simp add: w1_def)
  qed
  have other: "snd (doRead h env w True) \<noteq> Inl ErrTooSlow \<longrightarrow>
        readHedged h env w = doRead h env w True"
    by (simp add: readHedged_single)
  have missing: "env (opens w) = OpenFails err \<longrightarrow>
        readHedged h env w =
          (w\<lparr>opens := Suc (opens w), trace := trace w @ [EvOpen True]\<rparr>, Inl (OsErr err))"
    by (simp add: readHedged_def doRead_def Let_def)
  show ?thesis
    by (rule conjI[OF never conjI[OF hedge conjI[OF other missing]]])
qed

text \<open>
  Instances of C4: the stalled file makes the guarded attempt end with the too-slow
  error, and the fetch sleeps, opens the source again and returns the three bytes of the
  second attempt; a file that does not exist is opened once.
\<close>

theorem TooSlow_absorbed_witness:
  "snd (doRead default_handler stall_then_small start_world True) = Inl ErrTooSlow
   \<and> readHedged default_handler stall_then_small start_world
       = (\<lparr>opens = 2, trace = [EvOpen True, EvSleep 100000000, EvOpen False]\<rparr>, Inr [1, 2, 3])
   \<and> snd (readHedged default_handler stall_then_small start_world) \<noteq> Inl ErrTooSlow
   \<and> missing (opens start_world) = OpenFails ErrNotExist
   \<and> snd (doRead default_handler missing start_world True) \<noteq> Inl ErrTooSlow
   \<and> readHedged default_handler missing start_world
       = (\<lparr>opens = 1, trace = [EvOpen True]\<rparr>, Inl (OsErr ErrNotExist))"
proof -
  have slow: "snd (doRead default_handler stall_then_small start_world True) = Inl ErrTooSlow"
    by (simp add: eval_fetch stalled_file_def eval_read)
  have second: "stall_then_small (Suc (opens start_world)) = Opens small_file"
    "doRead_loop None [] small_file = Inr [1, 2, 3]"
    by (simp_all add: eval_fetch small_file_def eval_read)
  have h: "missing (opens start_world) = OpenFails ErrNotExist"
    by (simp add: missing_def)
  have ok: "snd (doRead default_handler missing start_world True) \<noteq> Inl ErrTooSlow"
    by (simp add: eval_fetch)
  note A = TooSlow_absorbed[of default_handler stall_then_small start_world ErrNotExist]
  note B = TooSlow_absorbed[of default_handler missing start_world ErrNotExist]
  have a1: "snd (readHedged default_handler stall_then_small start_world) \<noteq> Inl ErrTooSlow"
    using A by blast
  have a2: "fst (readHedged default_handler stall_then_small start_world) =
      start_world\<lparr>opens := Suc (Suc (opens start_world)),
        trace := trace start_world @ [EvOpen True, EvSleep (hedgedDelay default_handler), EvOpen False]\<rparr>"
    and a3: "snd (readHedged default_handler stall_then_small start_world) =
      (case stall_then_small (Suc (opens start_world)) of
         OpenFails err \<Rightarrow> Inl (OsErr err)
       | Opens src \<Rightarrow> doRead_loop None [] src)"
    using A slow by blast+
  have run: "readHedged default_handler stall_then_small start_world
       = (\<lparr>opens = 2, trace = [EvOpen True, EvSleep 100000000, EvOpen False]\<rparr>, Inr [1, 2, 3])"
    using a2 a3 second
    by (simp add: prod_eq_iff start_world_def default_handler_def)
  have b: "readHedged default_handler missing start_world
       = (\<lparr>opens = 1, trace = [EvOpen True]\<rparr>, Inl (OsErr ErrNotExist))"
    using B h by (simp add: start_world_def)
  from slow run a1 h ok b show ?thesis
    by (intro conjI)
qed

subsection \<open>Bounded memory cache\<close>

text \<open>
  C5, as amended. For every budget \<open>B\<close> and every sequence of \<^verbatim>\<open>Get\<close> and \<^verbatim>\<open>Set\<close>
  operations run to completion from the new cache (so after each operation of a run):
  the used bytes are the sum of the sizes of the retained entries; when \<open>B\<close> is not
  negative, the used bytes do not exceed \<open>B\<close>; no element occurs twice in the recency
  order, every key of the index points to an element of the recency order that holds
  this key, and every element of the recency order is the one its key points to; the
  payload of every retained entry is that of the most recent \<^verbatim>\<open>Set\<close> of its key whose
  payload did not exceed \<open>B\<close>.
\<close>

theorem cache_state_invariant:
  "c = run_ops (NewMemoryCache B) ops \<Longrightarrow>
     usedBytes c = (\<Sum>e\<leftarrow>ll c. int (length (Data (Value c e))))
   \<and> (0 \<le> B \<longrightarrow> usedBytes c \<le> B)
   \<and> distinct (ll c)
   \<and> (\<forall>k e. cache c k = Some e \<longrightarrow> e \<in> set (ll c) \<and> Key (Value c e) = k)
   \<and> (\<forall>e \<in> set (ll c). cache c (Key (Value c e)) = Some e)
   \<and> (\<forall>k e. cache c k = Some e \<longrightarrow> accepted B ops k = Some (Data (Value c e)))"
proof -
  assume c: "c = run_ops (NewMemoryCache B) ops"
  have ok: "cache_inv c" "agrees c (accepted B ops)"
    "0 \<le> maxBytes c \<longrightarrow> usedBytes c \<le> maxBytes c"
    using cache_ok_run_ops[of B ops] by (simp_all add: cache_ok_def c)
  have B: "maxBytes c = B" by (simp add: c)
  from ok(1) ok(2) ok(3)[unfolded B] show ?thesis
    unfolding cache_inv_def agrees_def by blast
qed

text \<open>
  An instance of C5, the end-to-end example of the specification: with a budget of ten
  bytes, six bytes are set under \<open>a\<close>, then six under \<open>b\<close>; \<open>a\<close> is evicted, \<open>b\<close>
  is present and six bytes are used.
\<close>

theorem cache_state_invariant_witness:
  "(0::int) \<le> 10
   \<and> usedBytes (run_ops (NewMemoryCache 10) [OpSet ''a'' six, OpSet ''b'' six]) = 6
   \<and> usedBytes (run_ops (NewMemoryCache 10) [OpSet ''a'' six, OpSet ''b'' six]) \<le> 10
   \<and> cache (run_ops (NewMemoryCache 10) [OpSet ''a'' six, OpSet ''b'' six]) ''a'' = None
   \<and> cache (run_ops (NewMemoryCache 10) [OpSet ''a'' six, OpSet ''b'' six]) ''b'' = Some 1
   \<and> 1 \<in> set (ll (run_ops (NewMemoryCache 10) [OpSet ''a'' six, OpSet ''b'' six]))
   \<and> Key (Value (run_ops (NewMemoryCache 10) [OpSet ''a'' six, OpSet ''b'' six]) 1) = ''b''
   \<and> accepted 10 [OpSet ''a'' six, OpSet ''b'' six] ''b''
       = Some (Data (Value (run_ops (NewMemoryCache 10) [OpSet ''a'' six, OpSet ''b'' six]) 1))"
proof -
  let ?c = "run_ops (NewMemoryCache 10) [OpSet ''a'' six, OpSet ''b'' six]"
  have ev: "cache ?c ''b'' = Some 1" "cache ?c ''a'' = None" "usedBytes ?c = 6"
    by (simp_all add: eval_cache six_def)
  from cache_state_invariant[OF refl, of 10 "[OpSet ''a'' six, OpSet ''b'' six]"] ev
  show ?thesis
    by simp
qed

text \<open>
  C5 as stated fails in two ways. With the budget \<open>-1\<close> every \<^verbatim>\<open>Set\<close> is oversized and
  the used bytes, zero, exceed the budget. With a budget of ten bytes, a \<^verbatim>\<open>Set\<close> of six
  bytes followed by a \<^verbatim>\<open>Set\<close> of eleven bytes under the same key leaves the entry with
  the six bytes: the most recent \<^verbatim>\<open>Set\<close> of the key is the oversized one, which is
  declined and leaves the older payload in place.
\<close>

theorem cache_invariant_counterexample:
  "\<not> usedBytes (run_ops (NewMemoryCache (- 1)) [OpSet ''a'' []]) \<le> - 1
   \<and> cache (run_ops (NewMemoryCache 10) [OpSet ''a'' six, OpSet ''a'' eleven]) ''a'' = Some 0
   \<and> Data (Value (run_ops (NewMemoryCache 10) [OpSet ''a'' six, OpSet ''a'' eleven]) 0) = six
   \<and> most_recent_Set [OpSet ''a'' six, OpSet ''a'' eleven] ''a'' = Some eleven
   \<and> six \<noteq> eleven"
  by (simp add: eval_cache most_recent_Set_def six_def eleven_def)

text \<open>
  C6, as amended. Eviction removes entries from the least recently used end only: what
  \<^verbatim>\<open>evict\<close> leaves is an initial part of the recency order. \<^verbatim>\<open>Get\<close> on a hit moves the
  entry to the most recently used end and returns its payload; a \<^verbatim>\<open>Set\<close> that is
  not oversized leaves an initial part of the recency order with its key moved or put to
  the most recently used end. For four different keys
  \<open>A\<close>, \<open>B\<close>, \<open>C\<close>, \<open>D\<close> with payloads of one size: in a cache sized to hold exactly
  three of them, inserting \<open>A\<close>, \<open>B\<close>, \<open>C\<close>, touching \<open>A\<close> by \<^verbatim>\<open>Get\<close>, then inserting
  \<open>D\<close> evicts \<open>B\<close> and not \<open>A\<close>; in a cache sized to hold exactly two of them,
  inserting \<open>C\<close> already evicts \<open>A\<close>, the \<^verbatim>\<open>Get\<close> of \<open>A\<close> misses and refreshes nothing,
  and inserting \<open>D\<close> evicts \<open>B\<close>, so that \<open>C\<close> and \<open>D\<close> remain.
\<close>

theorem lru_eviction_order:
  "ll (evict c) = take (length (ll (evict c))) (ll c)
   \<and> (cache c key = Some e \<and> e \<in> set (ll c) \<longrightarrow>
        Get c key = (c\<lparr>ll := e # remove1 e (ll c)\<rparr>, Some (Data (Value c e))))
   \<and> (distinct [kA, kB, kC, kD] \<and> 0 < s
        \<and> length dA = s \<and> length dB = s \<and> length dC = s \<and> length dD = s \<longrightarrow>
        ll (abc (3 * int s) kA dA kB dB kC dC) = [2, 1, 0]
        \<and> snd (Get (abc (3 * int s) kA dA kB dB kC dC) kA) = Some dA
        \<and> ll (fst (Get (abc (3 * int s) kA dA kB dB kC dC) kA)) = [0, 2, 1]
        \<and> ll (abc_get_d (3 * int s) kA dA kB dB kC dC kD dD) = [3, 0, 2]
        \<and> cache (abc_get_d (3 * int s) kA dA kB dB kC dC kD dD) kB = None
        \<and> cache (abc_get_d (3 * int s) kA dA kB dB kC dC kD dD) kA = Some 0
        \<and> Data (Value (abc_get_d (3 * int s) kA dA kB dB kC dC kD dD) 0) = dA
        \<and> ll (abc (2 * int s) kA dA kB dB kC dC) = [2, 1]
        \<and> cache (abc (2 * int s) kA dA kB dB kC dC) kA = None
        \<and> Get (abc (2 * int s) kA dA kB dB kC dC) kA = (abc (2 * int s) kA dA kB dB kC dC, None)
        \<and> ll (abc_get_d (2 * int s) kA dA kB dB kC dC kD dD) = [3, 2]
        \<and> cache (abc_get_d (2 * int s) kA dA kB dB kC dC kD dD) kA = None
        \<and> cache (abc_get_d (2 * int s) kA dA kB dB kC dC kD dD) kB = None
        \<and> cache (abc_get_d (2 * int s) kA dA kB dB kC dC kD dD) kC = Some 2
        \<and> cache (abc_get_d (2 * int s) kA dA kB dB kC dC kD dD) kD = Some 3)
   \<and> (int (length data) \<le> maxBytes c \<longrightarrow>
        ll (Set c key data) =
          take (length (ll (Set c key data)))
            (case cache c key of
               Some elem \<Rightarrow> MoveToFront (ll c) elem
             | None \<Rightarrow> allocated c # ll c))"
proof -
  have first: "ll (evict c) = take (length (ll (evict c))) (ll c)"
    by (rule evict_prefix)
  have second: "cache c key = Some e \<and> e \<in> set (ll c) \<longrightarrow>
        Get c key = (c\<lparr>ll := e # remove1 e (ll c)\<rparr>, Some (Data (Value c e)))"
    by (simp add: Get_hit)
  have third: "distinct [kA, kB, kC, kD] \<and> 0 < s
        \<and> length dA = s \<and> length dB = s \<and> length dC = s \<and> length dD = s \<longrightarrow>
        ll (abc (3 * int s) kA dA kB dB kC dC) = [2, 1, 0]
        \<and> snd (Get (abc (3 * int s) kA dA kB dB kC dC) kA) = Some dA
        \<and> ll (fst (Get (abc (3 * int s) kA dA kB dB kC dC) kA)) = [0, 2, 1]
        \<and> ll (abc_get_d (3 * int s) kA dA kB dB kC dC kD dD) = [3, 0, 2]
        \<and> cache (abc_get_d (3 * int s) kA dA kB dB kC dC kD dD) kB = None
        \<and> cache (abc_get_d (3 * int s) kA dA kB dB kC dC kD dD) kA = Some 0
        \<and> Data (Value (abc_get_d (3 * int s) kA dA kB dB kC dC kD dD) 0) = dA
        \<and> ll (abc (2 * int s) kA dA kB dB kC dC) = [2, 1]
        \<and> cache (abc (2 * int s) kA dA kB dB kC dC) kA = None
        \<and> Get (abc (2 * int s) kA dA kB dB kC dC) kA = (abc (2 * int s) kA dA kB dB kC dC, None)
        \<and> ll (abc_get_d (2 * int s) kA dA kB dB kC dC kD dD) = [3, 2]
        \<and> cache (abc_get_d (2 * int s) kA dA kB dB kC dC kD dD) kA = None
        \<and> cache (abc_get_d (2 * int s) kA dA kB dB kC dC kD dD) kB = None
        \<and> cache (abc_get_d (2 * int s) kA dA kB dB kC dC kD dD) kC = Some 2
        \<and> cache (abc_get_d (2 * int s) kA dA kB dB kC dC kD dD) kD = Some 3"
    by (intro impI, elim conjE, rule lru_scenario)
  have fourth: "int (length data) \<le> maxBytes c \<longrightarrow>
        ll (Set c key data) =
          take (length (ll (Set c key data)))
            (case cache c key of
               Some elem \<Rightarrow> MoveToFront (ll c) elem
             | None \<Rightarrow> allocated c # ll c)"
    by (intro impI, rule Set_prefix)
  show ?thesis
    by (rule conjI[OF first conjI[OF second conjI[OF third fourth]]])
qed

text \<open>
  An instance of C6: payloads of one byte under the keys \<open>a\<close>, \<open>b\<close>, \<open>c\<close>, \<open>d\<close> and
  a budget of three bytes.
\<close>

theorem lru_eviction_order_witness:
  "distinct [''a'', ''b'', ''c'', ''d''] \<and> (0::nat) < 1
   \<and> length [1::byte] = 1 \<and> length [2::byte] = 1 \<and> length [3::byte] = 1 \<and> length [4::byte] = 1
   \<and> ll (abc_get_d 3 ''a'' [1] ''b'' [2] ''c'' [3] ''d'' [4]) = [3, 0, 2]
   \<and> cache (abc_get_d 3 ''a'' [1] ''b'' [2] ''c'' [3] ''d'' [4]) ''b'' = None
   \<and> cache (abc_get_d 3 ''a'' [1] ''b'' [2] ''c'' [3] ''d'' [4]) ''a'' = Some 0
   \<and> cache (abc 3 ''a'' [1] ''b'' [2] ''c'' [3]) ''a'' = Some 0
   \<and> 0 \<in> set (ll (abc 3 ''a'' [1] ''b'' [2] ''c'' [3]))
   \<and> ll (fst (Get (abc 3 ''a'' [1] ''b'' [2] ''c'' [3]) ''a''))
       = 0 # remove1 0 (ll (abc 3 ''a'' [1] ''b'' [2] ''c'' [3]))
   \<and> int (length [4::byte]) \<le> maxBytes (abc 3 ''a'' [1] ''b'' [2] ''c'' [3])
   \<and> ll (Set (abc 3 ''a'' [1] ''b'' [2] ''c'' [3]) ''a'' [4])
       = take (length (ll (Set (abc 3 ''a'' [1] ''b'' [2] ''c'' [3]) ''a'' [4])))
           (MoveToFront (ll (abc 3 ''a'' [1] ''b'' [2] ''c'' [3])) 0)"
proof -
  let ?c = "abc 3 ''a'' [1] ''b'' [2] ''c'' [3]"
  let ?d = "abc_get_d 3 ''a'' [1] ''b'' [2] ''c'' [3] ''d'' [4]"
  have h: "distinct [''a'', ''b'', ''c'', ''d''] \<and> (0::nat) < 1
      \<and> length [1::byte] = 1 \<and> length [2::byte] = 1 \<and> length [3::byte] = 1
      \<and> length [4::byte] = 1"
    by simp
  have hit: "cache ?c ''a'' = Some 0" "0 \<in> set (ll ?c)"
    and fits: "int (length [4::byte]) \<le> maxBytes ?c"
    by (simp_all add: eval_cache)
  note L = lru_eviction_order[of ?c "''a''" 0 "''a''" "''b''" "''c''" "''d''" 1
      "[1]" "[2]" "[3]" "[4]" "[4]"]
  have G: "Get ?c ''a'' = (?c\<lparr>ll := 0 # remove1 0 (ll ?c)\<rparr>, Some (Data (Value ?c 0)))"
    using L hit by blast
  have S: "ll ?d = [3, 0, 2]" "cache ?d ''b'' = None" "cache ?d ''a'' = Some 0"
    using L h by simp_all
  have P: "ll (Set ?c ''a'' [4]) =
      take (length (ll (Set ?c ''a'' [4])))
        (case cache ?c ''a'' of Some elem \<Rightarrow> MoveToFront (ll ?c) elem
         | None \<Rightarrow> allocated ?c # ll ?c)"
    using L fits by blast
  have P': "ll (Set ?c ''a'' [4]) = take (length (ll (Set ?c ''a'' [4]))) (MoveToFront (ll ?c) 0)"
    using P by (simp add: hit(1))
  have G': "ll (fst (Get ?c ''a'')) = 0 # remove1 0 (ll ?c)"
    by (simp add: G)
  from h hit fits S G' P' show ?thesis
    by (intro conjI) simp_all
qed

text \<open>
  C6 as stated fails: in a cache of twelve bytes, which holds exactly two payloads of six
  bytes, \<open>A\<close> is gone once \<open>C\<close> is inserted; the \<^verbatim>\<open>Get\<close> of \<open>A\<close> finds nothing, and
  after the insertion of \<open>D\<close> neither \<open>A\<close> nor \<open>B\<close> is in the cache.
\<close>

theorem lru_two_slots_counterexample:
  "snd (Get (abc 12 ''A'' six ''B'' six ''C'' six) ''A'') = None
   \<and> cache (abc_get_d 12 ''A'' six ''B'' six ''C'' six ''D'' six) ''A'' = None
   \<and> cache (abc_get_d 12 ''A'' six ''B'' six ''C'' six ''D'' six) ''B'' = None
   \<and> cache (abc_get_d 12 ''A'' six ''B'' six ''C'' six ''D'' six) ''C'' = Some 2
   \<and> cache (abc_get_d 12 ''A'' six ''B'' six ''C'' six ''D'' six) ''D'' = Some 3"
  by (simp add: eval_cache six_def)

text \<open>
  C7. A \<^verbatim>\<open>Set\<close> whose payload is larger than the budget returns the cache state it was
  given, whatever the key: no entry is created or replaced, the used bytes and the
  recency order stay as they were. The operation has no error result.
\<close>

theorem Set_oversize_noop:
  "int (length data) > maxBytes c \<Longrightarrow> Set c key data = c"
  by (simp add: Set_def)

text \<open>
  An instance of C7: eleven bytes offered under a key that holds six bytes, with a budget
  of ten bytes.
\<close>

theorem Set_oversize_noop_witness:
  "int (length eleven) > maxBytes (Set (NewMemoryCache 10) ''a'' six)
   \<and> Set (Set (NewMemoryCache 10) ''a'' six) ''a'' eleven = Set (NewMemoryCache 10) ''a'' six
   \<and> cache (Set (Set (NewMemoryCache 10) ''a'' six) ''a'' eleven) ''a'' = Some 0
   \<and> Data (Value (Set (Set (NewMemoryCache 10) ''a'' six) ''a'' eleven) 0) = six"
proof -
  have h: "int (length eleven) > maxBytes (Set (NewMemoryCache 10) ''a'' six)"
    by (simp add: eleven_def)
  have ev: "cache (Set (NewMemoryCache 10) ''a'' six) ''a'' = Some 0"
    "Data (Value (Set (NewMemoryCache 10) ''a'' six) 0) = six"
    by (simp_all add: eval_cache six_def)
  from Set_oversize_noop[OF h, of "''a''"] h ev show ?thesis
    by simp
qed

end
